theory Spec2Isabelle
  imports Main "HOL-Library.Multiset"
begin

section \<open>JavaScript values used by the collector\<close>

text \<open>
  Strings are lists of characters with codes below 256. JSON data are the values the
  device's REST API returns and the values of \<^verbatim>\<open>properties.json\<close>; numbers are kept as
  integers, which is all the code under study looks at (truthiness, indices).
\<close>

datatype json =
    JNull
  | JBool bool
  | JNum int
  | JStr string
  | JArr "json list"
  | JObj "(string \<times> json) list"

text \<open>The errors the code throws or receives. \<open>NetworkError\<close> is whatever the HTTP
  layer rejects with, \<open>TemplateError\<close> whatever the template library throws.\<close>

datatype error =
    InvalidComparator string
  | EndpointNotDefined string
  | UnknownConditional string
  | NoDeviceVersion
  | TypeError
  | NetworkError string
  | TemplateError string

text \<open>JavaScript truthiness of a JSON value.\<close>

fun truthy :: "json \<Rightarrow> bool" where
  "truthy JNull = False"
| "truthy (JBool b) = b"
| "truthy (JNum n) = (n \<noteq> 0)"
| "truthy (JStr s) = (s \<noteq> [])"
| "truthy (JArr xs) = True"
| "truthy (JObj kvs) = True"

definition truthy_opt :: "json option \<Rightarrow> bool" where
  "truthy_opt v = (case v of None \<Rightarrow> False | Some j \<Rightarrow> truthy j)"

subsection \<open>String.prototype.split with a separator string\<close>

text \<open>
  \<^verbatim>\<open>s.split(sep)\<close>: the pieces of \<open>s\<close> between the occurrences of \<open>sep\<close>, scanned from
  the left; an empty separator cuts between all characters.
\<close>

function split_from :: "string \<Rightarrow> string \<Rightarrow> string \<Rightarrow> string list" where
  "split_from sep acc s =
     (if s = [] then [rev acc]
      else if sep \<noteq> [] \<and> take (length sep) s = sep
        then rev acc # split_from sep [] (drop (length sep) s)
      else split_from sep (hd s # acc) (tl s))"
  by pat_completeness auto
termination
  by (relation "measure (\<lambda>(sep, acc, s). length s)") auto

declare split_from.simps [simp del]

definition js_split :: "string \<Rightarrow> string \<Rightarrow> string list" where
  "js_split sep s = (if sep = [] then map (\<lambda>c. [c]) s else split_from sep [] s)"

subsection \<open>parseInt(s, 10)\<close>

text \<open>
  \<^verbatim>\<open>parseInt(s, 10)\<close> skips leading white space, reads an optional sign and then the
  longest run of decimal digits; with no digit the result is \<^verbatim>\<open>NaN\<close> (\<open>None\<close> here).

  The result is a JavaScript number, a double: the integer that the digits denote when
  it is at most \<open>2 ^ 53\<close>, and above that the nearest number with 53 significant bits (of
  two nearest ones the one with the even significand), or \<^verbatim>\<open>Infinity\<close> when that is
  \<open>2 ^ 1024\<close> or more. The numbers met here are integral or infinite and are kept as
  integers, \<^verbatim>\<open>Infinity\<close> as \<open>2 ^ 1024\<close>, which is above every double: the order and the
  equality of the numbers are those of the integers. (The standard lets an engine drop
  the digits after the twentieth significant one; V8, the engine of Node.js, reads them
  all.)
\<close>

definition is_digit :: "char \<Rightarrow> bool" where
  "is_digit c = (of_char c \<ge> (48::nat) \<and> of_char c \<le> (57::nat))"

definition digit_val :: "char \<Rightarrow> int" where
  "digit_val c = int (of_char c) - 48"

definition is_space :: "char \<Rightarrow> bool" where
  "is_space c = (of_char c \<in> {9::nat, 10, 11, 12, 13, 32, 160})"

definition digits_val :: "string \<Rightarrow> int" where
  "digits_val ds = foldl (\<lambda>n c. 10 * n + digit_val c) 0 ds"

text \<open>The number of binary digits of a positive integer.\<close>

function bit_length :: "int \<Rightarrow> nat" where
  "bit_length n = (if n \<le> 0 then 0 else Suc (bit_length (n div 2)))"
  by pat_completeness auto
termination
  by (relation "measure nat") auto

declare bit_length.simps [simp del]

definition round_double :: "int \<Rightarrow> int" where
  "round_double n =
     (if n \<le> 2 ^ 53 then n
      else (let e = bit_length n - 53;
                q = n div 2 ^ e;
                r = n mod 2 ^ e;
                q' = (if 2 * r > 2 ^ e \<or> (2 * r = 2 ^ e \<and> odd q) then q + 1 else q)
            in min (q' * 2 ^ e) (2 ^ 1024)))"

definition parseInt10 :: "string \<Rightarrow> int option" where
  "parseInt10 s =
     (let t = dropWhile is_space s;
          neg = (t \<noteq> [] \<and> hd t = CHR ''-'');
          u = (if t \<noteq> [] \<and> (hd t = CHR ''-'' \<or> hd t = CHR ''+'') then tl t else t);
          z = takeWhile is_digit u
      in if z = [] then None
         else Some (if neg then - round_double (digits_val z) else round_double (digits_val z)))"

section \<open>Version comparison\<close>

text \<open>
  \<^verbatim>\<open>parseInt(parts[i], 10) || 0\<close>: a missing component is \<^verbatim>\<open>undefined\<close>, which parses to
  \<^verbatim>\<open>NaN\<close>, and \<^verbatim>\<open>NaN || 0\<close> is \<open>0\<close>.
\<close>

definition part_value :: "string \<Rightarrow> int" where
  "part_value p = (case parseInt10 p of None \<Rightarrow> 0 | Some n \<Rightarrow> n)"

definition part_at :: "string list \<Rightarrow> nat \<Rightarrow> int" where
  "part_at parts i = (if i < length parts then part_value (parts ! i) else 0)"

text \<open>The loop \<^verbatim>\<open>for (let i = 0; i < maxLen && !cmp; i++)\<close> of \<^verbatim>\<open>compareVersionStrings\<close>.\<close>

function cmp_loop :: "string list \<Rightarrow> string list \<Rightarrow> nat \<Rightarrow> nat \<Rightarrow> int \<Rightarrow> int" where
  "cmp_loop v1parts v2parts maxLen i cmp =
     (if i < maxLen \<and> cmp = 0
      then (let part1 = part_at v1parts i;
                part2 = part_at v2parts i
            in cmp_loop v1parts v2parts maxLen (Suc i)
                 (if part1 < part2 then 1 else if part1 > part2 then - 1 else cmp))
      else cmp)"
  by pat_completeness auto
termination
  by (relation "measure (\<lambda>(v1parts, v2parts, maxLen, i, cmp). maxLen - i)") auto

declare cmp_loop.simps [simp del]

text \<open>The comparators let through by the \<^verbatim>\<open>indexOf\<close> test.\<close>

definition comparators :: "string list" where
  "comparators = [''=='', ''==='', ''<'', ''<='', ''>'', ''>='', ''!='', ''!=='']"

text \<open>\<^verbatim>\<open>eval(`0${comparator}${cmp}`)\<close> for a comparator of the list.\<close>

definition eval_comparison :: "string \<Rightarrow> int \<Rightarrow> bool" where
  "eval_comparison comparator cmp =
     (if comparator = ''=='' \<or> comparator = ''==='' then 0 = cmp
      else if comparator = ''<'' then 0 < cmp
      else if comparator = ''<='' then 0 \<le> cmp
      else if comparator = ''>'' then 0 > cmp
      else if comparator = ''>='' then 0 \<ge> cmp
      else 0 \<noteq> cmp)"

definition compareVersionStrings :: "string \<Rightarrow> string \<Rightarrow> string \<Rightarrow> error + bool" where
  "compareVersionStrings version1 comparator0 version2 =
     (let comparator = (if comparator0 = ''='' then ''=='' else comparator0)
      in if comparator \<notin> set comparators then Inl (InvalidComparator comparator)
         else
           (let v1parts = js_split ''.'' version1;
                v2parts = js_split ''.'' version2;
                maxLen = max (length v1parts) (length v2parts);
                cmp = cmp_loop v1parts v2parts maxLen 0 0
            in Inr (eval_comparison comparator cmp)))"

text \<open>
  The specification's reading of the comparison: the versions are lists of integers,
  compared component by component from the left, a missing trailing component counting
  as \<open>0\<close>. The result is negative, zero or positive as the first version is smaller than,
  equal to or greater than the second.
\<close>

fun version_compare :: "int list \<Rightarrow> int list \<Rightarrow> int" where
  "version_compare [] [] = 0"
| "version_compare (x # xs) [] =
     (if x < 0 then - 1 else if x > 0 then 1 else version_compare xs [])"
| "version_compare [] (y # ys) =
     (if 0 < y then - 1 else if 0 > y then 1 else version_compare [] ys)"
| "version_compare (x # xs) (y # ys) =
     (if x < y then - 1 else if x > y then 1 else version_compare xs ys)"

definition comparator_holds :: "string \<Rightarrow> int \<Rightarrow> bool" where
  "comparator_holds comparator c =
     (if comparator \<in> {''='', ''=='', ''===''} then c = 0
      else if comparator \<in> {''!='', ''!==''} then c \<noteq> 0
      else if comparator = ''<'' then c < 0
      else if comparator = ''<='' then c \<le> 0
      else if comparator = ''>'' then c > 0
      else c \<ge> 0)"

text \<open>
  A dotted numeric version: every component is a non-empty run of digits. Its numbers
  are the integers that the components denote; they are exact as JavaScript numbers
  when none is above \<open>2 ^ 53\<close>.
\<close>

definition numeric_version :: "string \<Rightarrow> bool" where
  "numeric_version v =
     (\<forall>p \<in> set (js_split ''.'' v). p \<noteq> [] \<and> (\<forall>c \<in> set p. is_digit c))"

definition version_numbers :: "string \<Rightarrow> int list" where
  "version_numbers v = map digits_val (js_split ''.'' v)"

definition exact_numbers :: "string \<Rightarrow> bool" where
  "exact_numbers v = (\<forall>n \<in> set (version_numbers v). n \<le> 2 ^ 53)"

section \<open>JavaScript objects: own keys in enumeration order\<close>

text \<open>
  An object is the list of its own properties in insertion order, with distinct keys.
  \<^verbatim>\<open>Object.keys\<close> lists the keys that are array indices first, in ascending numeric
  order, and then the other keys in insertion order.

  The objects of the code are made by \<^verbatim>\<open>{}\<close> or by \<^verbatim>\<open>JSON.parse\<close>, so a name that is no
  own key is still answered when \<^verbatim>\<open>Object.prototype\<close> has a member of that name: eleven
  functions, and under \<^verbatim>\<open>__proto__\<close> the prototype itself.
\<close>

type_synonym 'v obj = "(string \<times> 'v) list"

definition object_prototype_member :: "string \<Rightarrow> bool" where
  "object_prototype_member k \<longleftrightarrow>
     k \<in> set [''constructor'', ''toString'', ''toLocaleString'', ''valueOf'', ''hasOwnProperty'',
              ''isPrototypeOf'', ''propertyIsEnumerable'', ''__defineGetter__'', ''__defineSetter__'',
              ''__lookupGetter__'', ''__lookupSetter__'', ''__proto__'']"

definition is_array_index :: "string \<Rightarrow> bool" where
  "is_array_index k =
     (k \<noteq> [] \<and> (\<forall>c \<in> set k. is_digit c) \<and> (k = ''0'' \<or> hd k \<noteq> CHR ''0'')
      \<and> digits_val k < 4294967295)"

definition index_value :: "string \<Rightarrow> int" where
  "index_value k = digits_val k"

definition object_keys :: "'v obj \<Rightarrow> string list" where
  "object_keys ob =
     sort_key index_value (filter is_array_index (map fst ob))
       @ filter (\<lambda>k. \<not> is_array_index k) (map fst ob)"

definition obj_get :: "'v obj \<Rightarrow> string \<Rightarrow> 'v option" where
  "obj_get ob k = map_of ob k"

text \<open>
  \<^verbatim>\<open>ob[k] = v\<close>: an existing key keeps its place, a new key is added at the end. The
  name \<^verbatim>\<open>__proto__\<close> is the exception: unless the object has an own key of that name (as
  \<^verbatim>\<open>JSON.parse\<close> can make one), the assignment goes to the setter of
  \<^verbatim>\<open>Object.prototype\<close>, which adds no key.
\<close>

fun obj_set :: "'v obj \<Rightarrow> string \<Rightarrow> 'v \<Rightarrow> 'v obj" where
  "obj_set [] k v = (if k = ''__proto__'' then [] else [(k, v)])"
| "obj_set ((k', v') # ob) k v =
     (if k' = k then (k, v) # ob else (k', v') # obj_set ob k v)"

text \<open>\<^verbatim>\<open>delete ob[k]\<close>\<close>

definition obj_delete :: "'v obj \<Rightarrow> string \<Rightarrow> 'v obj" where
  "obj_delete ob k = filter (\<lambda>kv. fst kv \<noteq> k) ob"

text \<open>\<^verbatim>\<open>Object.assign(target, source)\<close>\<close>

definition obj_assign :: "'v obj \<Rightarrow> 'v obj \<Rightarrow> 'v obj" where
  "obj_assign target source =
     fold (\<lambda>k t. case obj_get source k of None \<Rightarrow> t | Some v \<Rightarrow> obj_set t k v)
       (object_keys source) target"





section \<open>EndpointLoader\<close>

subsection \<open>Endpoint definitions and responses\<close>

text \<open>
  An entry of \<^verbatim>\<open>paths.json\<close>. \<open>ep_expandReferences\<close> maps a reference field to its
  options, of which the code reads \<^verbatim>\<open>endpointSuffix\<close>.
\<close>

record endpoint =
  ep_name :: "string option"
  ep_endpoint :: string
  ep_body :: "string option"
  ep_expandReferences :: "(string option) obj option"

text \<open>\<^verbatim>\<open>{ name: nameToUse, data }\<close>: the name is an endpoint name, a uri or an item index.\<close>

datatype name_tag = NameStr string | NameIdx nat

record response =
  r_name :: name_tag
  r_data :: json



subsection \<open>Reference expansion\<close>










subsection \<open>The loader's state\<close>

text \<open>
  A callback is known by its identity. \<^verbatim>\<open>cachedResponse[endpoint]\<close> is the array
  \<^verbatim>\<open>[loaded, callbacks, data]\<close>.
\<close>

type_synonym callback = nat

record cache_entry =
  loaded :: bool
  callbacks :: "callback list"
  data :: "response option"

text \<open>
  Each call of \<^verbatim>\<open>loadEndpoint\<close> builds a promise chain
  \<^verbatim>\<open>new Promise(executor).then(h1).catch(c1).then(h2).catch(c2)\<close>. The executor runs
  inside the call; the handlers run later, one at a time. The position of a chain says
  which handler is due next:
  \<^item> \<open>P_then1 dataIsEmpty\<close>: the executor resolved with \<open>dataIsEmpty\<close>, \<open>h1\<close> is due;
  \<^item> \<open>P_fetch\<close>: \<open>h1\<close> returned the promise of \<^verbatim>\<open>_getAndExpandData\<close>, not yet settled;
  \<^item> \<open>P_catch1 err\<close>: the chain is rejected with \<open>err\<close>, \<open>c1\<close> is due;
  \<^item> \<open>P_then2\<close>: \<open>h2\<close> is due;
  \<^item> \<open>P_catch2 err\<close>: rejected after \<open>c1\<close>, the last handler \<open>c2\<close> is due;
  \<^item> \<open>P_done\<close>: the chain has ended.
\<close>

datatype position = P_then1 bool | P_fetch | P_catch1 error | P_then2 | P_catch2 error | P_done

text \<open>
  The loader's fields that the claims involve, and three records of what it did: the
  chains of the calls made so far (call \<open>i\<close> owns \<open>chains ! i\<close>), the endpoints for
  which \<^verbatim>\<open>_getAndExpandData\<close> was called, the callback invocations
  \<open>(endpoint, callback, data, err)\<close> and the errors given to \<^verbatim>\<open>logger.exception\<close>, each
  in order of occurrence.
\<close>

record loader =
  endpoints :: "(string \<rightharpoonup> endpoint) option"
  cachedResponse :: "string \<rightharpoonup> cache_entry"
  chains :: "(string \<times> position) list"
  fetches :: "string list"
  invoked :: "(string \<times> callback \<times> response option \<times> error option) list"
  logged :: "error list"

definition EndpointLoader :: loader where
  "EndpointLoader =
     \<lparr>endpoints = None, cachedResponse = Map.empty, chains = [], fetches = [],
      invoked = [], logged = []\<rparr>"

text \<open>
  \<^verbatim>\<open>setEndpoints\<close>: the catalog is keyed by \<^verbatim>\<open>endpoint.name || endpoint.endpoint\<close>; a later
  definition replaces an earlier one under the same key.
\<close>

definition catalog :: "endpoint list \<Rightarrow> (string \<rightharpoonup> endpoint)" where
  "catalog newEndpoints =
     fold (\<lambda>ep m. m((case ep_name ep of
                         None \<Rightarrow> ep_endpoint ep
                       | Some n \<Rightarrow> if n = [] then ep_endpoint ep else n) \<mapsto> ep))
       newEndpoints Map.empty"

definition setEndpoints :: "endpoint list \<Rightarrow> loader \<Rightarrow> loader" where
  "setEndpoints newEndpoints s = s\<lparr>endpoints := Some (catalog newEndpoints)\<rparr>"

subsection \<open>Notifying the waiters\<close>

text \<open>
  The loop \<^verbatim>\<open>while (callbacks.length) { const callback = callbacks.pop(); ... }\<close>:
  \<^verbatim>\<open>pop\<close> takes the last element; the promise executor calls the callback at once.
  Callbacks are taken not to throw and not to call the loader before they return, as
  those of \<^verbatim>\<open>_loadData\<close> do.
\<close>

function drain ::
  "string \<Rightarrow> response option \<Rightarrow> error option \<Rightarrow> callback list
     \<Rightarrow> (string \<times> callback \<times> response option \<times> error option) list
     \<Rightarrow> callback list \<times> (string \<times> callback \<times> response option \<times> error option) list" where
  "drain endpoint d err cbs log =
     (if cbs = [] then (cbs, log)
      else drain endpoint d err (butlast cbs) (log @ [(endpoint, last cbs, d, err)]))"
  by pat_completeness auto
termination
  by (relation "measure (\<lambda>(endpoint, d, err, cbs, log). length cbs)") auto

declare drain.simps [simp del]

text \<open>\<^verbatim>\<open>this.cachedResponse[endpoint][1]\<close> throws when the endpoint has no cache entry.\<close>

definition executeCallbacks ::
  "string \<Rightarrow> response option \<Rightarrow> error option \<Rightarrow> loader \<Rightarrow> error + loader" where
  "executeCallbacks endpoint d err s =
     (case cachedResponse s endpoint of
        None \<Rightarrow> Inl TypeError
      | Some entry \<Rightarrow>
          (let (cbs, log) = drain endpoint d err (callbacks entry) (invoked s)
           in Inr (s\<lparr>cachedResponse := (cachedResponse s)(endpoint \<mapsto> entry\<lparr>callbacks := cbs\<rparr>),
                     invoked := log\<rparr>)))"

subsection \<open>loadEndpoint\<close>

text \<open>The call itself: the executor of \<^verbatim>\<open>new Promise\<close>, and a new chain.\<close>

definition loadEndpoint :: "string \<Rightarrow> callback \<Rightarrow> loader \<Rightarrow> loader" where
  "loadEndpoint endpoint cb s =
     (case endpoints s of
        None \<Rightarrow> s\<lparr>chains := chains s @ [(endpoint, P_catch1 TypeError)]\<rparr>
      | Some eps \<Rightarrow>
          (case eps endpoint of
             None \<Rightarrow> s\<lparr>chains := chains s @ [(endpoint, P_catch1 (EndpointNotDefined endpoint))]\<rparr>
           | Some ep \<Rightarrow>
               (case cachedResponse s endpoint of
                  None \<Rightarrow>
                    s\<lparr>cachedResponse := (cachedResponse s)(endpoint \<mapsto>
                          \<lparr>loaded = False, callbacks = [cb], data = None\<rparr>),
                      chains := chains s @ [(endpoint, P_then1 True)]\<rparr>
                | Some entry \<Rightarrow>
                    s\<lparr>cachedResponse := (cachedResponse s)(endpoint \<mapsto>
                          entry\<lparr>callbacks := callbacks entry @ [cb]\<rparr>),
                      chains := chains s @ [(endpoint, P_then1 False)]\<rparr>)))"

definition set_position :: "nat \<Rightarrow> string \<Rightarrow> position \<Rightarrow> loader \<Rightarrow> loader" where
  "set_position i endpoint p s = s\<lparr>chains := (chains s)[i := (endpoint, p)]\<rparr>"

text \<open>
  The handler that is due on chain \<open>i\<close>:
  \<^item> \<open>h1\<close> calls \<^verbatim>\<open>_getAndExpandData(this.endpoints[endpoint])\<close> when \<open>dataIsEmpty\<close>, else
    returns a resolved promise;
  \<^item> \<open>c1\<close> is \<^verbatim>\<open>err => this._executeCallbacks(endpoint, null, err).then(Promise.reject())\<close>;
    \<^verbatim>\<open>then\<close> ignores an argument that is not a function, so the chain goes on fulfilled;
  \<^item> \<open>h2\<close> notifies the waiters with the cached data if the entry is loaded;
  \<^item> \<open>c2\<close> logs the error.
  A chain waiting for the network, or ended, has no handler due.
\<close>

definition tick :: "nat \<Rightarrow> loader \<Rightarrow> loader" where
  "tick i s =
     (if i < length (chains s) then
        (let endpoint = fst (chains s ! i) in
         case snd (chains s ! i) of
           P_then1 dataIsEmpty \<Rightarrow>
             if dataIsEmpty then
               (case endpoints s of
                  None \<Rightarrow> set_position i endpoint (P_catch1 TypeError) s
                | Some eps \<Rightarrow>
                    (case eps endpoint of
                       None \<Rightarrow> set_position i endpoint (P_catch1 TypeError) s
                     | Some ep \<Rightarrow>
                         set_position i endpoint P_fetch (s\<lparr>fetches := fetches s @ [endpoint]\<rparr>)))
             else set_position i endpoint P_then2 s
         | P_fetch \<Rightarrow> s
         | P_catch1 err \<Rightarrow>
             (case executeCallbacks endpoint None (Some err) s of
                Inl e \<Rightarrow> set_position i endpoint (P_catch2 e) s
              | Inr s' \<Rightarrow> set_position i endpoint P_then2 s')
         | P_then2 \<Rightarrow>
             (case cachedResponse s endpoint of
                None \<Rightarrow> set_position i endpoint (P_catch2 TypeError) s
              | Some entry \<Rightarrow>
                  if loaded entry then
                    (case executeCallbacks endpoint (data entry) None s of
                       Inl e \<Rightarrow> set_position i endpoint (P_catch2 e) s
                     | Inr s' \<Rightarrow> set_position i endpoint P_done s')
                  else set_position i endpoint P_done s)
         | P_catch2 err \<Rightarrow> set_position i endpoint P_done (s\<lparr>logged := logged s @ [err]\<rparr>)
         | P_done \<Rightarrow> s)
      else s)"

text \<open>
  The promise of \<^verbatim>\<open>_getAndExpandData\<close> on chain \<open>i\<close> settles. On success the handler
  \<^verbatim>\<open>(response) => { this.cachedResponse[endpoint][2] = response;
  this.cachedResponse[endpoint][0] = true; }\<close> runs; a failure rejects the chain.
\<close>

definition fetchDone :: "nat \<Rightarrow> error + response \<Rightarrow> loader \<Rightarrow> loader" where
  "fetchDone i outcome s =
     (if i < length (chains s) \<and> snd (chains s ! i) = P_fetch then
        (let endpoint = fst (chains s ! i) in
         case outcome of
           Inl err \<Rightarrow> set_position i endpoint (P_catch1 err) s
         | Inr resp \<Rightarrow>
             (case cachedResponse s endpoint of
                None \<Rightarrow> set_position i endpoint (P_catch1 TypeError) s
              | Some entry \<Rightarrow>
                  set_position i endpoint P_then2
                    (s\<lparr>cachedResponse := (cachedResponse s)(endpoint \<mapsto>
                          entry\<lparr>data := Some resp, loaded := True\<rparr>)\<rparr>)))
      else s)"

text \<open>
  What can happen to a loader, in any order: a call, a due handler of some chain, the
  settling of some chain's fetch.
\<close>

datatype event = Call string callback | Tick nat | FetchDone nat "error + response"

fun step :: "event \<Rightarrow> loader \<Rightarrow> loader" where
  "step (Call endpoint cb) s = loadEndpoint endpoint cb s"
| "step (Tick i) s = tick i s"
| "step (FetchDone i outcome) s = fetchDone i outcome s"

definition run :: "event list \<Rightarrow> loader \<Rightarrow> loader" where
  "run es s = fold step es s"



definition invoked_of :: "string \<Rightarrow> loader \<Rightarrow> (callback \<times> response option \<times> error option) list" where
  "invoked_of endpoint s = map snd (filter (\<lambda>inv. fst inv = endpoint) (invoked s))"

section \<open>SystemStats\<close>

subsection \<open>Properties and conditionals\<close>

text \<open>
  A property of \<^verbatim>\<open>properties.json\<close>: its entries other than \<^verbatim>\<open>if\<close>, \<^verbatim>\<open>then\<close> and
  \<^verbatim>\<open>else\<close>, the \<^verbatim>\<open>if\<close> block (predicate name to argument) when there is one, and the
  two branches, each a property or undefined.
\<close>

datatype property =
  Property (entries: "json obj") (if_block: "json obj option")
    (then_branch: "property option") (else_branch: "property option")

text \<open>
  \<^verbatim>\<open>deviceVersionGreaterOrEqual(contextData, versionToCompare)\<close>; the version to
  compare with is the value of the conditional block under the predicate's name,
  undefined when there is none.
\<close>

definition deviceVersionGreaterOrEqual :: "json obj \<Rightarrow> json option \<Rightarrow> error + bool" where
  "deviceVersionGreaterOrEqual contextData versionToCompare =
     (case obj_get contextData ''deviceVersion'' of
        None \<Rightarrow> Inl NoDeviceVersion
      | Some (JStr deviceVersion) \<Rightarrow>
          (case versionToCompare of
             Some (JStr v) \<Rightarrow> compareVersionStrings deviceVersion ''>='' v
           | _ \<Rightarrow> Inl TypeError)
      | Some _ \<Rightarrow> Inl TypeError)"

text \<open>
  \<^verbatim>\<open>_resolveConditional\<close>: the keys of the block in \<^verbatim>\<open>Object.keys\<close> order, and
  \<^verbatim>\<open>ret && func(...)\<close> does not call \<open>func\<close> once \<open>ret\<close> is false.

  \<^verbatim>\<open>CONDITIONAL_FUNCS\<close> is a plain object with the one own key
  \<^verbatim>\<open>deviceVersionGreaterOrEqual\<close>. A key that names a member of \<^verbatim>\<open>Object.prototype\<close> finds
  that member, so that \<open>func\<close> is not undefined, and the member is called, with no
  object as \<^verbatim>\<open>this\<close>: \<^verbatim>\<open>toString\<close> then returns the text \<^verbatim>\<open>[object Undefined]\<close> and
  \<^verbatim>\<open>constructor\<close> returns its first argument, the context data, both of them truthy;
  the other functions throw a \<^verbatim>\<open>TypeError\<close>, and so does the call of \<^verbatim>\<open>__proto__\<close>, which
  is no function. Every other key is unknown.
\<close>

fun resolve_keys :: "json obj \<Rightarrow> json obj \<Rightarrow> string list \<Rightarrow> bool \<Rightarrow> error + bool" where
  "resolve_keys contextData block [] ret = Inr ret"
| "resolve_keys contextData block (key # keys) ret =
     (if key = ''deviceVersionGreaterOrEqual'' then
        (if ret then
           (case deviceVersionGreaterOrEqual contextData (obj_get block key) of
              Inl err \<Rightarrow> Inl err
            | Inr b \<Rightarrow> resolve_keys contextData block keys b)
         else resolve_keys contextData block keys False)
      else if object_prototype_member key then
        (if ret \<and> key \<noteq> ''toString'' \<and> key \<noteq> ''constructor'' then Inl TypeError
         else resolve_keys contextData block keys ret)
      else Inl (UnknownConditional key))"

definition resolveConditional :: "json obj \<Rightarrow> json obj \<Rightarrow> error + bool" where
  "resolveConditional contextData conditionalBlock =
     resolve_keys contextData conditionalBlock (object_keys conditionalBlock) True"

text \<open>
  The loop of \<^verbatim>\<open>_preprocessProperty\<close>: copy the entries of this level into \<open>newObj\<close>,
  stop when the level has no \<^verbatim>\<open>if\<close>, else go on with the branch the conditional selects;
  an undefined branch ends the loop (\<^verbatim>\<open>while (property)\<close>).
\<close>

fun walk :: "json obj \<Rightarrow> property \<Rightarrow> json obj \<Rightarrow> error + json obj" where
  "walk contextData (Property ents ifb th el) newObj =
     (case ifb of
        None \<Rightarrow> Inr (obj_assign newObj ents)
      | Some block \<Rightarrow>
          (case resolveConditional contextData block of
             Inl err \<Rightarrow> Inl err
           | Inr True \<Rightarrow>
               (case th of
                  None \<Rightarrow> Inr (obj_assign newObj ents)
                | Some p \<Rightarrow> walk contextData p (obj_assign newObj ents))
           | Inr False \<Rightarrow>
               (case el of
                  None \<Rightarrow> Inr (obj_assign newObj ents)
                | Some p \<Rightarrow> walk contextData p (obj_assign newObj ents))))"

text \<open>
  A property as the object it is in \<^verbatim>\<open>properties.json\<close>, with its \<^verbatim>\<open>if\<close>, \<^verbatim>\<open>then\<close> and
  \<^verbatim>\<open>else\<close>; these are listed after the entries, their place among the keys not being
  kept.
\<close>

fun property_json :: "property \<Rightarrow> json obj" where
  "property_json (Property ents ifb th el) =
     ents
     @ (case ifb of None \<Rightarrow> [] | Some block \<Rightarrow> [(''if'', JObj block)])
     @ (case th of None \<Rightarrow> [] | Some p \<Rightarrow> [(''then'', JObj (property_json p))])
     @ (case el of None \<Rightarrow> [] | Some p \<Rightarrow> [(''else'', JObj (property_json p))])"

text \<open>
  \<^verbatim>\<open>_preprocessProperty\<close>: a property without \<^verbatim>\<open>if\<close> is returned whole. The deep copy
  \<^verbatim>\<open>JSON.parse(JSON.stringify(property))\<close> of the result has the same keys, in the same
  enumeration order, and the same values, and is the result here.
\<close>

definition preprocessProperty :: "json obj \<Rightarrow> property \<Rightarrow> error + json obj" where
  "preprocessProperty contextData property =
     (case if_block property of
        None \<Rightarrow> Inr (property_json property)
      | Some block \<Rightarrow> walk contextData property [])"

text \<open>
  The conditional walk of a property ends at an undefined branch: the property has an
  \<^verbatim>\<open>if\<close>, and on the way down some conditional selects a \<^verbatim>\<open>then\<close> or \<^verbatim>\<open>else\<close> that is not
  there.
\<close>

fun selects_undefined :: "json obj \<Rightarrow> property \<Rightarrow> bool" where
  "selects_undefined contextData (Property ents ifb th el) =
     (case ifb of
        None \<Rightarrow> False
      | Some block \<Rightarrow>
          (case resolveConditional contextData block of
             Inl err \<Rightarrow> False
           | Inr True \<Rightarrow> (case th of None \<Rightarrow> True | Some p \<Rightarrow> selects_undefined contextData p)
           | Inr False \<Rightarrow> (case el of None \<Rightarrow> True | Some p \<Rightarrow> selects_undefined contextData p)))"

text \<open>
  The specification's reading of what such a walk gathers. The levels walked are the
  property itself and, below each level whose conditional resolves, the branch that it
  selects, as long as there is one; \<open>levels\<close> lists their entries, the outermost first.
  Gathering them copies the entries level by level into one object, and the entry
  gathered under a key is that of the deepest level that has the key.
\<close>

fun levels :: "json obj \<Rightarrow> property \<Rightarrow> json obj list" where
  "levels contextData (Property ents ifb th el) =
     ents #
     (case ifb of
        None \<Rightarrow> []
      | Some block \<Rightarrow>
          (case resolveConditional contextData block of
             Inl err \<Rightarrow> []
           | Inr True \<Rightarrow> (case th of None \<Rightarrow> [] | Some p \<Rightarrow> levels contextData p)
           | Inr False \<Rightarrow> (case el of None \<Rightarrow> [] | Some p \<Rightarrow> levels contextData p)))"

definition gathered :: "json obj list \<Rightarrow> json obj" where
  "gathered lvls = fold (\<lambda>ents newObj. obj_assign newObj ents) lvls []"

definition deepest_entry :: "json obj list \<Rightarrow> string \<Rightarrow> json option" where
  "deepest_entry lvls k =
     (case filter (\<lambda>ents. obj_get ents k \<noteq> None) (rev lvls) of
        [] \<Rightarrow> None
      | ents # _ \<Rightarrow> obj_get ents k)"

text \<open>
  \<^verbatim>\<open>mustache.render\<close> belongs to a library: the renderer is a parameter that turns a
  template and the context data into a string, or throws.
\<close>

type_synonym renderer = "json \<Rightarrow> json obj \<Rightarrow> error + string"

definition renderProperty :: "renderer \<Rightarrow> json obj \<Rightarrow> json obj \<Rightarrow> error + json obj" where
  "renderProperty render contextData property =
     (if truthy_opt (obj_get property ''key'') then
        (case render (the (obj_get property ''key'')) contextData of
           Inl err \<Rightarrow> Inl err
         | Inr rendered \<Rightarrow> Inr (obj_set property ''key'' (JStr rendered)))
      else Inr property)"

text \<open>
  \<^verbatim>\<open>_splitKey\<close>, with \<^verbatim>\<open>constants.STATS_KEY_SEP\<close> as the parameter \<open>sep\<close>. The root key is
  undefined when the key splits into nothing.
\<close>

fun join :: "string \<Rightarrow> string list \<Rightarrow> string" where
  "join sep [] = []"
| "join sep [x] = x"
| "join sep (x # y # ys) = x @ sep @ join sep (y # ys)"

definition splitKey :: "string \<Rightarrow> string \<Rightarrow> string option \<times> string option" where
  "splitKey sep key =
     (let splitKeys = js_split sep key
      in (case splitKeys of [] \<Rightarrow> None | rootKey # _ \<Rightarrow> Some rootKey,
          if length (tl splitKeys) > 0 then Some (join sep (tl splitKeys)) else None))"

subsection \<open>Processing a property\<close>

text \<open>
  The state of a \<^verbatim>\<open>SystemStats\<close> object. \<open>waiting\<close> lists the callbacks that
  \<^verbatim>\<open>_loadData\<close> has handed to the loader: callback \<open>n\<close> is the \<open>n\<close>-th of them, and
  stands for the key to store under and the resolved property.
\<close>

record systemStats =
  loader :: loader
  contextData :: "json obj"
  collectedData :: "json obj"
  waiting :: "(string \<times> json obj) list"

text \<open>
  What \<^verbatim>\<open>_processProperty\<close> has done when it returns: rejected its promise, resolved it
  at once without a value (a disabled property), or left it waiting for callback \<open>n\<close>.
\<close>

datatype started = Rejected error | Disabled | Waiting callback

text \<open>
  \<^verbatim>\<open>_loadData\<close>: \<^verbatim>\<open>property.key.split\<close> throws unless the key is a string; the root key
  names the endpoint, and an undefined one reads as the text \<^verbatim>\<open>undefined\<close>.
\<close>

definition loadData :: "string \<Rightarrow> string \<Rightarrow> json obj \<Rightarrow> systemStats \<Rightarrow> started \<times> systemStats" where
  "loadData sep key property s =
     (case obj_get property ''key'' of
        Some (JStr k) \<Rightarrow>
          (let endpoint = (case fst (splitKey sep k) of None \<Rightarrow> ''undefined'' | Some r \<Rightarrow> r);
               cb = length (waiting s)
           in (Waiting cb,
               s\<lparr>loader := loadEndpoint endpoint cb (loader s),
                 waiting := waiting s @ [(key, property)]\<rparr>))
      | _ \<Rightarrow> (Rejected TypeError, s))"

definition processProperty ::
  "renderer \<Rightarrow> string \<Rightarrow> string \<Rightarrow> property \<Rightarrow> systemStats \<Rightarrow> started \<times> systemStats" where
  "processProperty render sep key property s =
     (case preprocessProperty (contextData s) property of
        Inl err \<Rightarrow> (Rejected err, s)
      | Inr pre \<Rightarrow>
          (case renderProperty render (contextData s) pre of
             Inl err \<Rightarrow> (Rejected err, s)
           | Inr rendered \<Rightarrow>
               if truthy_opt (obj_get rendered ''disabled'') then (Disabled, s)
               else loadData sep key rendered s))"

text \<open>The handler \<^verbatim>\<open>(data) => { this.collectedData[key] = data; }\<close> of a loaded property.\<close>

definition store_collected :: "string \<Rightarrow> json \<Rightarrow> systemStats \<Rightarrow> systemStats" where
  "store_collected key v s = s\<lparr>collectedData := obj_set (collectedData s) key v\<rparr>"

subsection \<open>The context phase\<close>

text \<open>
  \<^verbatim>\<open>_processContext\<close>, up to its return: every property of the group is started, in
  \<^verbatim>\<open>Object.keys\<close> order. The promise it returns settles later; when all properties have
  resolved, its handler merges the collected data into the context data.
\<close>

fun start_properties ::
  "renderer \<Rightarrow> string \<Rightarrow> property obj \<Rightarrow> string list \<Rightarrow> systemStats \<Rightarrow> started list \<times> systemStats" where
  "start_properties render sep props [] s = ([], s)"
| "start_properties render sep props (key # keys) s =
     (case obj_get props key of
        None \<Rightarrow> start_properties render sep props keys s
      | Some property \<Rightarrow>
          (let (st, s1) = processProperty render sep key property s;
               (sts, s2) = start_properties render sep props keys s1
           in (st # sts, s2)))"

definition processContext ::
  "renderer \<Rightarrow> string \<Rightarrow> property obj \<Rightarrow> systemStats \<Rightarrow> started list \<times> systemStats" where
  "processContext render sep grp s = start_properties render sep grp (object_keys grp) s"

definition processContext_merge :: "systemStats \<Rightarrow> systemStats" where
  "processContext_merge s =
     s\<lparr>contextData := obj_assign (contextData s) (collectedData s), collectedData := []\<rparr>"

text \<open>The context definition of \<^verbatim>\<open>properties.json\<close>: a list of groups, one group, or nothing.\<close>

datatype context_def = ContextArray "property obj list" | ContextObject "property obj" | ContextNone

text \<open>
  The loop \<^verbatim>\<open>for (let i = 1; ...) { promise.then(this._processContext(contextData[i])); }\<close>:
  the argument of \<^verbatim>\<open>then\<close> is evaluated at once, so each further group is started within
  the loop; \<^verbatim>\<open>then\<close> is given a promise where it expects a function and ignores it, and
  its own result is dropped.
\<close>

fun start_groups ::
  "renderer \<Rightarrow> string \<Rightarrow> property obj list \<Rightarrow> systemStats \<Rightarrow> started list list \<times> systemStats" where
  "start_groups render sep [] s = ([], s)"
| "start_groups render sep (grp # groups) s =
     (let (st, s1) = processContext render sep grp s;
          (sts, s2) = start_groups render sep groups s1
      in (st # sts, s2))"

text \<open>
  \<^verbatim>\<open>_computeContextData\<close>, up to its return: the groups it has started, each with what
  became of its properties, and the group whose promise it returns (\<open>None\<close>: a promise
  that is already resolved).
\<close>

definition computeContextData ::
  "renderer \<Rightarrow> string \<Rightarrow> context_def \<Rightarrow> systemStats \<Rightarrow> nat option \<times> started list list \<times> systemStats" where
  "computeContextData render sep contextDef s =
     (case contextDef of
        ContextArray groups \<Rightarrow>
          (case groups of
             [] \<Rightarrow> (None, [], s)
           | group0 # rest \<Rightarrow>
               (let (st, s1) = processContext render sep group0 s;
                    (sts, s2) = start_groups render sep rest s1
                in (Some 0, st # sts, s2)))
      | ContextObject grp \<Rightarrow>
          (let (st, s1) = processContext render sep grp s in (Some 0, [st], s1))
      | ContextNone \<Rightarrow> (None, [], s))"

subsection \<open>The end of a collection cycle\<close>

text \<open>
  The last two handlers of \<^verbatim>\<open>collect\<close>: the collected values are copied in the order
  of \<^verbatim>\<open>Object.keys(pStats)\<close> (a key without a collected value gets \<^verbatim>\<open>undefined\<close>), then
  \<^verbatim>\<open>telemetryServiceInfo\<close> is set.
\<close>

definition collect_ordered :: "property obj \<Rightarrow> systemStats \<Rightarrow> (json option) obj" where
  "collect_ordered pStats s =
     fold (\<lambda>key orderedData. obj_set orderedData key (obj_get (collectedData s) key))
       (object_keys pStats) []"

definition collect_result :: "property obj \<Rightarrow> json obj option \<Rightarrow> systemStats \<Rightarrow> (json option) obj" where
  "collect_result pStats otherPropsToInject s =
     (let serviceProps = (case otherPropsToInject of None \<Rightarrow> [] | Some other \<Rightarrow> obj_assign [] other)
      in obj_set (collect_ordered pStats s) ''telemetryServiceInfo'' (Some (JObj serviceProps)))"

text \<open>
  The stats phase: the properties resolve in some order, each storing its value when it
  does. A completion order is the list of \<open>(key, value)\<close> in the order of resolution.
\<close>

definition stats_resolved :: "(string \<times> json) list \<Rightarrow> systemStats \<Rightarrow> systemStats" where
  "stats_resolved completions s = fold (\<lambda>(key, v) s'. store_collected key v s') completions s"

section \<open>Event listeners\<close>

text \<open>
  A listener's configuration and a running server. The tracer of a listener plays no
  part in starting or stopping and is left out.
\<close>

record listener_config =
  lc_port :: "nat option"
  lc_tag :: "json option"
  lc_enable :: "bool option"

record server =
  sv_port :: nat
  sv_tags :: json

text \<open>
  The registry \<^verbatim>\<open>listeners\<close> is a plain object. Read under a name that is no own key but
  a member of \<^verbatim>\<open>Object.prototype\<close>, it answers that member, which is truthy and no
  server: \<^verbatim>\<open>stop\<close> is called with it, \<^verbatim>\<open>server.close\<close> is not a function, and the error is
  caught and logged inside \<^verbatim>\<open>stop\<close> (\<open>StopFailed\<close>). A listener named \<^verbatim>\<open>__proto__\<close> is not
  stored as a key: the assignment makes its server the prototype of the registry, which
  is no part of the state here; the theorems leave that name out.
\<close>

datatype action = Stop string server | Start string server | StopFailed string

fun action_name :: "action \<Rightarrow> string" where
  "action_name (Stop k srv) = k"
| "action_name (Start k srv) = k"
| "action_name (StopFailed k) = k"

text \<open>\<^verbatim>\<open>start\<close> returns the server it created; \<^verbatim>\<open>stop\<close> closes one.\<close>

definition start :: "nat \<Rightarrow> json \<Rightarrow> server" where
  "start port tags = \<lparr>sv_port = port, sv_tags = tags\<rparr>"

text \<open>\<^verbatim>\<open>lConfig.port || DEFAULT_PORT\<close> and \<^verbatim>\<open>lConfig.tag || {}\<close>.\<close>

definition listener_port :: "nat \<Rightarrow> listener_config \<Rightarrow> nat" where
  "listener_port DEFAULT_PORT lConfig =
     (case lc_port lConfig of None \<Rightarrow> DEFAULT_PORT | Some n \<Rightarrow> if n = 0 then DEFAULT_PORT else n)"

definition listener_tags :: "listener_config \<Rightarrow> json" where
  "listener_tags lConfig = (if truthy_opt (lc_tag lConfig) then the (lc_tag lConfig) else JObj [])"

text \<open>
  The body of \<^verbatim>\<open>Object.keys(eventListeners).forEach\<close> in the handler of the
  configuration worker's \<^verbatim>\<open>change\<close> event, on the registry \<^verbatim>\<open>listeners\<close> and the actions
  taken so far. \<open>DEFAULT_PORT\<close> is a constant of \<^verbatim>\<open>constants.js\<close>, a parameter here.
\<close>

definition reconcile_entry ::
  "nat \<Rightarrow> string \<Rightarrow> listener_config \<Rightarrow> server obj \<times> action list \<Rightarrow> server obj \<times> action list" where
  "reconcile_entry DEFAULT_PORT k lConfig st =
     (let listeners = fst st; acts = snd st;
          port = listener_port DEFAULT_PORT lConfig;
          tags = listener_tags lConfig
      in if lc_enable lConfig = Some False then
           (case obj_get listeners k of
              Some srv \<Rightarrow> (obj_delete listeners k, acts @ [Stop k srv])
            | None \<Rightarrow>
                if object_prototype_member k then (listeners, acts @ [StopFailed k])
                else (listeners, acts))
         else
           (case obj_get listeners k of
              Some srv \<Rightarrow>
                (obj_set listeners k (start port tags), acts @ [Stop k srv, Start k (start port tags)])
            | None \<Rightarrow>
                if object_prototype_member k
                then (obj_set listeners k (start port tags),
                      acts @ [StopFailed k, Start k (start port tags)])
                else (obj_set listeners k (start port tags), acts @ [Start k (start port tags)])))"

text \<open>
  The handler itself: without a listener section every running listener is stopped and
  removed; with one, its entries are gone through in \<^verbatim>\<open>Object.keys\<close> order. The result is
  the registry and the actions taken.
\<close>

definition on_change ::
  "nat \<Rightarrow> listener_config obj option \<Rightarrow> server obj \<Rightarrow> server obj \<times> action list" where
  "on_change DEFAULT_PORT eventListeners listeners =
     (case eventListeners of
        None \<Rightarrow>
          fold (\<lambda>k st. case obj_get (fst st) k of
                         None \<Rightarrow> st
                       | Some srv \<Rightarrow> (obj_delete (fst st) k, snd st @ [Stop k srv]))
            (object_keys listeners) (listeners, [])
      | Some cfg \<Rightarrow>
          fold (\<lambda>k st. case obj_get cfg k of
                         None \<Rightarrow> st
                       | Some lConfig \<Rightarrow> reconcile_entry DEFAULT_PORT k lConfig st)
            (object_keys cfg) (listeners, []))"

section \<open>Concrete inputs\<close>

text \<open>A loader with the one endpoint \<^verbatim>\<open>X\<close>, and a response to it.\<close>

definition endpointX :: endpoint where
  "endpointX = \<lparr>ep_name = Some ''X'', ep_endpoint = ''/mgmt/tm/x'', ep_body = None,
                 ep_expandReferences = None\<rparr>"

definition loaderX :: loader where
  "loaderX = setEndpoints [endpointX] EndpointLoader"

definition responseX :: response where
  "responseX = \<lparr>r_name = NameStr ''X'', r_data = JObj [(''kind'', JStr ''x'')]\<rparr>"

text \<open>
  A configuration that is identical to the running state: every entry is enabled and
  runs with the entry's port and tags. \<open>restart\<close> is a stop followed by a start with the
  entry's settings.
\<close>

definition matches_running :: "nat \<Rightarrow> listener_config obj \<Rightarrow> server obj \<Rightarrow> bool" where
  "matches_running DEFAULT_PORT cfg listeners =
     (\<forall>k \<in> set (object_keys cfg).
        case obj_get cfg k of
          None \<Rightarrow> False
        | Some lConfig \<Rightarrow>
            lc_enable lConfig \<noteq> Some False
            \<and> obj_get listeners k = Some (start (listener_port DEFAULT_PORT lConfig) (listener_tags lConfig)))"

definition restart :: "nat \<Rightarrow> listener_config obj \<Rightarrow> string \<Rightarrow> action list" where
  "restart DEFAULT_PORT cfg k =
     (case obj_get cfg k of
        None \<Rightarrow> []
      | Some lConfig \<Rightarrow>
          [Stop k (start (listener_port DEFAULT_PORT lConfig) (listener_tags lConfig)),
           Start k (start (listener_port DEFAULT_PORT lConfig) (listener_tags lConfig))])"

text \<open>One listener on port 6514.\<close>

definition listener6514 :: "listener_config obj" where
  "listener6514 = [(''My_Listener'', \<lparr>lc_port = Some 6514, lc_tag = None, lc_enable = None\<rparr>)]"

text \<open>
  Two running listeners, on the ports 6514 and 6515, the configuration they run with, and
  that configuration with the first listener moved to port 6516.
\<close>

definition twoRunning :: "server obj" where
  "twoRunning =
     [(''First'', \<lparr>sv_port = 6514, sv_tags = JObj []\<rparr>),
      (''Second'', \<lparr>sv_port = 6515, sv_tags = JObj []\<rparr>)]"

definition twoListeners :: "listener_config obj" where
  "twoListeners =
     [(''First'', \<lparr>lc_port = Some 6514, lc_tag = None, lc_enable = None\<rparr>),
      (''Second'', \<lparr>lc_port = Some 6515, lc_tag = None, lc_enable = None\<rparr>)]"

definition firstMoved :: "listener_config obj" where
  "firstMoved =
     [(''First'', \<lparr>lc_port = Some 6516, lc_tag = None, lc_enable = None\<rparr>),
      (''Second'', \<lparr>lc_port = Some 6515, lc_tag = None, lc_enable = None\<rparr>)]"

text \<open>Three stat properties declared in the order \<^verbatim>\<open>a\<close>, \<^verbatim>\<open>b\<close>, \<^verbatim>\<open>c\<close>, and a fresh collector.\<close>

definition statsABC :: "property obj" where
  "statsABC =
     [(''a'', Property [(''key'', JStr ''/mgmt/tm/a'')] None None None),
      (''b'', Property [(''key'', JStr ''/mgmt/tm/b'')] None None None),
      (''c'', Property [(''key'', JStr ''/mgmt/tm/c'')] None None None)]"

text \<open>Two stat properties declared in the order \<^verbatim>\<open>b\<close>, \<^verbatim>\<open>1\<close>.\<close>

definition statsB1 :: "property obj" where
  "statsB1 =
     [(''b'', Property [(''key'', JStr ''/mgmt/tm/b'')] None None None),
      (''1'', Property [(''key'', JStr ''/mgmt/tm/1'')] None None None)]"

definition stats0 :: systemStats where
  "stats0 = \<lparr>loader = loaderX, contextData = [], collectedData = [], waiting = []\<rparr>"

text \<open>A renderer that returns a template as it is, as a template without tags is rendered.\<close>

definition render_plain :: renderer where
  "render_plain template ctx = (case template of JStr t \<Rightarrow> Inr t | _ \<Rightarrow> Inl TypeError)"

text \<open>
  A property that is only defined from version 14.0 on
  (\<^verbatim>\<open>{ if: { deviceVersionGreaterOrEqual: "14.0" }, then: { key: "/mgmt/tm/a" } }\<close>), a
  property of two levels whose inner level, reached from version 13.0 on, sets
  \<^verbatim>\<open>disabled\<close> and goes on from version 14.0 on only, and a collector whose context holds
  the device version 13.1.
\<close>

definition since14 :: property where
  "since14 =
     Property [] (Some [(''deviceVersionGreaterOrEqual'', JStr ''14.0'')])
       (Some (Property [(''key'', JStr ''/mgmt/tm/a'')] None None None)) None"

definition nested14 :: property where
  "nested14 =
     Property [(''key'', JStr ''/mgmt/tm/a''), (''disabled'', JBool False)]
       (Some [(''deviceVersionGreaterOrEqual'', JStr ''13.0'')])
       (Some (Property [(''disabled'', JBool True)]
                (Some [(''deviceVersionGreaterOrEqual'', JStr ''14.0'')])
                (Some (Property [(''key'', JStr ''/mgmt/tm/b'')] None None None)) None))
       None"

definition stats13 :: systemStats where
  "stats13 = stats0\<lparr>contextData := [(''deviceVersion'', JStr ''13.1'')]\<rparr>"

text \<open>
  A context of two groups: the first loads the device version, the second holds a
  property that depends on it.
\<close>

definition versionGroup :: "property obj" where
  "versionGroup = [(''deviceVersion'', Property [(''key'', JStr ''X::version'')] None None None)]"

definition dependentGroup :: "property obj" where
  "dependentGroup =
     [(''provisioning'',
       Property [] (Some [(''deviceVersionGreaterOrEqual'', JStr ''13.0'')])
         (Some (Property [(''key'', JStr ''X::provision'')] None None None)) None)]"






section \<open>The loader seen from one endpoint\<close>

text \<open>
  What the runs of the loader are measured by, for one endpoint \<open>X\<close>: the positions of the
  chains of the calls for \<open>X\<close>, as a multiset, and what has to stay the same for a step that
  belongs to another endpoint.
\<close>

definition pos_of :: "string \<Rightarrow> (string \<times> position) list \<Rightarrow> position multiset" where
  "pos_of X chs = image_mset snd (filter_mset (\<lambda>c. fst c = X) (mset chs))"

text \<open>
  A chain is in flight while it is the one that fetches: from the first call for the
  endpoint until the outcome of its fetch has been handed to the waiters.
\<close>

fun in_flight :: "position \<Rightarrow> bool" where
  "in_flight (P_then1 dataIsEmpty) = dataIsEmpty"
| "in_flight P_fetch = True"
| "in_flight (P_catch1 err) = True"
| "in_flight p = False"



definition positions :: "string \<Rightarrow> loader \<Rightarrow> position multiset" where
  "positions X s = image_mset snd (filter_mset (\<lambda>c. fst c = X) (mset (chains s)))"

definition same_view :: "string \<Rightarrow> loader \<Rightarrow> loader \<Rightarrow> bool" where
  "same_view X s s' \<longleftrightarrow>
     endpoints s' = endpoints s \<and> cachedResponse s' X = cachedResponse s X
     \<and> positions X s' = positions X s \<and> invoked_of X s' = invoked_of X s
     \<and> count_list (fetches s') X = count_list (fetches s) X"




text \<open>
  The state of endpoint \<open>X\<close> after its fetch has failed and the waiters have been told: the
  entry exists and is not loaded, and no chain is in flight.
\<close>

definition failed_quiet ::
  "(string \<rightharpoonup> endpoint) \<Rightarrow> string \<Rightarrow> (callback \<times> response option \<times> error option) list \<Rightarrow> nat
     \<Rightarrow> loader \<Rightarrow> bool" where
  "failed_quiet eps X inv0 n0 s \<longleftrightarrow>
     endpoints s = Some eps
     \<and> (\<exists>entry. cachedResponse s X = Some entry \<and> \<not> loaded entry)
     \<and> (\<forall>p \<in># positions X s. \<not> in_flight p)
     \<and> invoked_of X s = inv0
     \<and> count_list (fetches s) X = n0"

section \<open>Properties of the version comparison\<close>

lemma cmp_loop_done: "cmp \<noteq> 0 \<Longrightarrow> cmp_loop a b m i cmp = cmp"
  by (subst cmp_loop.simps) simp

lemma cmp_loop_version_compare:
  "m = max (length a) (length b) \<Longrightarrow>
   cmp_loop a b m i 0 = - version_compare (drop i (map part_value a)) (drop i (map part_value b))"
proof (induction "m - i" arbitrary: i)
  case 0
  then have le: "length a \<le> i" "length b \<le> i" and ge: "\<not> i < m" by auto
  have "cmp_loop a b m i 0 = 0" using ge by (subst cmp_loop.simps) simp
  then show ?case using le by simp
next
  case (Suc n)
  then have lt: "i < m" and n: "n = m - Suc i" by auto
  have IH: "cmp_loop a b m (Suc i) 0 =
      - version_compare (drop (Suc i) (map part_value a)) (drop (Suc i) (map part_value b))"
    using Suc.hyps(1) [OF n Suc.prems] .
  show ?case
  proof (cases "i < length a"; cases "i < length b")
    assume "i < length a" "i < length b"
    then show ?thesis
      using lt IH
      by (subst cmp_loop.simps)
         (simp add: part_at_def Cons_nth_drop_Suc [symmetric] cmp_loop_done Let_def)
  next
    assume "i < length a" "\<not> i < length b"
    then show ?thesis
      using lt IH
      by (subst cmp_loop.simps)
         (simp add: part_at_def Cons_nth_drop_Suc [symmetric] cmp_loop_done Let_def)
  next
    assume "\<not> i < length a" "i < length b"
    then show ?thesis
      using lt IH
      by (subst cmp_loop.simps)
         (simp add: part_at_def Cons_nth_drop_Suc [symmetric] cmp_loop_done Let_def)
  next
    assume "\<not> i < length a" "\<not> i < length b"
    then show ?thesis using lt Suc.prems by simp
  qed
qed

lemma digit_not_space: "is_digit c \<Longrightarrow> \<not> is_space c"
  by (auto simp: is_digit_def is_space_def)

lemma digit_not_sign: "is_digit c \<Longrightarrow> c \<noteq> CHR ''-'' \<and> c \<noteq> CHR ''+''"
  by (auto simp: is_digit_def)

lemma parseInt10_digits:
  assumes "p \<noteq> []" and "\<forall>c \<in> set p. is_digit c"
  shows "parseInt10 p = Some (round_double (digits_val p))"
proof -
  obtain c cs where p: "p = c # cs" using assms(1) by (cases p) auto
  have c: "is_digit c" using assms(2) p by simp
  have t: "dropWhile is_space p = p" using c p digit_not_space by simp
  have z: "takeWhile is_digit p = p" using assms(2) by (simp add: takeWhile_eq_all_conv)
  show ?thesis
    unfolding parseInt10_def Let_def t
    using digit_not_sign [OF c] z assms(1) by (simp add: p)
qed

lemma part_value_numeric:
  "numeric_version v \<Longrightarrow> map part_value (js_split ''.'' v) = map round_double (version_numbers v)"
  by (simp add: numeric_version_def version_numbers_def part_value_def parseInt10_digits)

lemma round_double_exact: "n \<le> 2 ^ 53 \<Longrightarrow> round_double n = n"
  by (simp add: round_double_def)

lemma exact_numbers_round: "exact_numbers v \<Longrightarrow> map round_double (version_numbers v) = version_numbers v"
  unfolding exact_numbers_def by (induction "version_numbers v") (simp_all add: round_double_exact map_idI)

lemma eval_comparison_holds:
  "comparator \<in> set comparators \<Longrightarrow> eval_comparison comparator (- c) = comparator_holds comparator c"
  by (auto simp: comparators_def eval_comparison_def comparator_holds_def)

lemma compareVersionStrings_valid:
  assumes "comparator \<in> {''='', ''=='', ''==='', ''<'', ''<='', ''>'', ''>='', ''!='', ''!==''}"
  shows "compareVersionStrings v1 comparator v2 =
           Inr (comparator_holds comparator
                 (version_compare (map part_value (js_split ''.'' v1)) (map part_value (js_split ''.'' v2))))"
proof -
  define c' where "c' = (if comparator = ''='' then ''=='' else comparator)"
  have in_list: "c' \<in> set comparators" using assms by (auto simp: c'_def comparators_def)
  have same: "comparator_holds c' = comparator_holds comparator"
    by (auto simp: c'_def comparator_holds_def fun_eq_iff)
  show ?thesis
    using in_list same
    by (simp add: compareVersionStrings_def Let_def c'_def [symmetric] cmp_loop_version_compare
        eval_comparison_holds)
qed

lemma compareVersionStrings_invalid:
  assumes "comparator \<notin> {''='', ''=='', ''==='', ''<'', ''<='', ''>'', ''>='', ''!='', ''!==''}"
  shows "compareVersionStrings v1 comparator v2 = Inl (InvalidComparator comparator)"
  using assms by (simp add: compareVersionStrings_def Let_def comparators_def)

text \<open>
  Claim C7, amended. For version strings whose components between the dots are
  non-empty runs of digits, \<^verbatim>\<open>compareVersionStrings(v1, op, v2)\<close> compares the versions
  component by component, a missing trailing component counting as \<open>0\<close>, each component
  read as a JavaScript number: as the integer it denotes when no component is above
  \<open>2 ^ 53\<close>, and in general as that integer rounded to the nearest double. It supports
  \<^verbatim>\<open>==\<close>, \<^verbatim>\<open>!=\<close>, \<^verbatim>\<open><\<close>, \<^verbatim>\<open><=\<close>, \<^verbatim>\<open>>\<close>, \<^verbatim>\<open>>=\<close>, takes \<^verbatim>\<open>=\<close> for \<^verbatim>\<open>==\<close>, and also accepts \<^verbatim>\<open>===\<close> and
  \<^verbatim>\<open>!==\<close> (as \<^verbatim>\<open>==\<close> and \<^verbatim>\<open>!=\<close>); for every other comparator string it fails with an error
  instead of returning a result.
\<close>

theorem compareVersionStrings_spec:
  "(comparator \<in> {''='', ''=='', ''==='', ''<'', ''<='', ''>'', ''>='', ''!='', ''!==''}
      \<and> numeric_version v1 \<and> numeric_version v2
    \<longrightarrow> compareVersionStrings v1 comparator v2 =
          Inr (comparator_holds comparator
                (version_compare (map round_double (version_numbers v1))
                                 (map round_double (version_numbers v2)))))
   \<and> (comparator \<in> {''='', ''=='', ''==='', ''<'', ''<='', ''>'', ''>='', ''!='', ''!==''}
      \<and> numeric_version v1 \<and> numeric_version v2 \<and> exact_numbers v1 \<and> exact_numbers v2
    \<longrightarrow> compareVersionStrings v1 comparator v2 =
          Inr (comparator_holds comparator (version_compare (version_numbers v1) (version_numbers v2))))
   \<and> (comparator \<notin> {''='', ''=='', ''==='', ''<'', ''<='', ''>'', ''>='', ''!='', ''!==''}
    \<longrightarrow> compareVersionStrings v1 comparator v2 = Inl (InvalidComparator comparator))"
proof (intro conjI impI)
  assume a: "comparator \<in> {''='', ''=='', ''==='', ''<'', ''<='', ''>'', ''>='', ''!='', ''!==''}
      \<and> numeric_version v1 \<and> numeric_version v2"
  show "compareVersionStrings v1 comparator v2 =
          Inr (comparator_holds comparator
                (version_compare (map round_double (version_numbers v1))
                                 (map round_double (version_numbers v2))))"
    using a compareVersionStrings_valid [of comparator v1 v2]
    by (simp only: part_value_numeric)
next
  assume a: "comparator \<in> {''='', ''=='', ''==='', ''<'', ''<='', ''>'', ''>='', ''!='', ''!==''}
      \<and> numeric_version v1 \<and> numeric_version v2 \<and> exact_numbers v1 \<and> exact_numbers v2"
  show "compareVersionStrings v1 comparator v2 =
          Inr (comparator_holds comparator (version_compare (version_numbers v1) (version_numbers v2)))"
    using a compareVersionStrings_valid [of comparator v1 v2]
    by (simp only: part_value_numeric exact_numbers_round)
next
  assume "comparator \<notin> {''='', ''=='', ''==='', ''<'', ''<='', ''>'', ''>='', ''!='', ''!==''}"
  then show "compareVersionStrings v1 comparator v2 = Inl (InvalidComparator comparator)"
    by (rule compareVersionStrings_invalid)
qed

lemma js_split_dot_examples:
  "js_split ''.'' ''14.1.0'' = [''14'', ''1'', ''0'']"
  "js_split ''.'' ''14.1'' = [''14'', ''1'']"
  "js_split ''.'' ''13.9'' = [''13'', ''9'']"
  "js_split ''.'' ''14.0'' = [''14'', ''0'']"
  "js_split ''.'' ''1.0'' = [''1'', ''0'']"
  by (simp_all add: js_split_def split_from.simps)

text \<open>
  The examples of the specification, by the theorem: \<^verbatim>\<open>compare("14.1.0", ">=", "14.1")\<close>
  and \<^verbatim>\<open>compare("13.9", "<", "14.0")\<close> are true, and the comparator \<^verbatim>\<open>~=\<close> fails.
\<close>

theorem compareVersionStrings_spec_witness:
  "numeric_version ''14.1.0'' \<and> numeric_version ''14.1''
   \<and> numeric_version ''13.9'' \<and> numeric_version ''14.0''
   \<and> exact_numbers ''14.1.0'' \<and> exact_numbers ''14.1''
   \<and> exact_numbers ''13.9'' \<and> exact_numbers ''14.0''
   \<and> compareVersionStrings ''14.1.0'' ''>='' ''14.1'' = Inr True
   \<and> compareVersionStrings ''13.9'' ''<'' ''14.0'' = Inr True
   \<and> compareVersionStrings ''1.0'' ''~='' ''1.0'' = Inl (InvalidComparator ''~='')"
proof -
  have n: "numeric_version ''14.1.0''" "numeric_version ''14.1''"
      "numeric_version ''13.9''" "numeric_version ''14.0''"
    by (simp_all add: numeric_version_def js_split_dot_examples is_digit_def)
  have vn: "version_numbers ''14.1.0'' = [14, 1, 0]" "version_numbers ''14.1'' = [14, 1]"
      "version_numbers ''13.9'' = [13, 9]" "version_numbers ''14.0'' = [14, 0]"
    by (simp_all add: version_numbers_def js_split_dot_examples digits_val_def digit_val_def)
  have e: "exact_numbers ''14.1.0''" "exact_numbers ''14.1''"
      "exact_numbers ''13.9''" "exact_numbers ''14.0''"
    by (simp_all add: exact_numbers_def vn)
  show ?thesis
    using n e
      compareVersionStrings_spec [of "''>=''" "''14.1.0''" "''14.1''"]
      compareVersionStrings_spec [of "''<''" "''13.9''" "''14.0''"]
      compareVersionStrings_spec [of "''~=''" "''1.0''" "''1.0''"]
    by (simp add: comparator_holds_def vn round_double_def)
qed

lemma bit_length_big: "bit_length 9007199254740993 = 54"
  by (simp add: bit_length.simps)

lemma round_double_big:
  "round_double 9007199254740993 = 9007199254740992"
  "round_double 9007199254740992 = 9007199254740992"
  by (simp_all add: round_double_def bit_length_big Let_def)

lemma js_split_big:
  "js_split ''.'' ''9007199254740993'' = [''9007199254740993'']"
  "js_split ''.'' ''9007199254740992'' = [''9007199254740992'']"
  by (simp_all add: js_split_def split_from.simps)

lemma digits_val_big:
  "digits_val ''9007199254740993'' = 9007199254740993"
  "digits_val ''9007199254740992'' = 9007199254740992"
  by (simp_all add: digits_val_def digit_val_def)

text \<open>
  Claim C7 as stated fails. \<^verbatim>\<open>===\<close> is none of \<^verbatim>\<open>==\<close>, \<^verbatim>\<open>!=\<close>, \<^verbatim>\<open><\<close>, \<^verbatim>\<open><=\<close>, \<^verbatim>\<open>>\<close>, \<^verbatim>\<open>>=\<close>, \<^verbatim>\<open>=\<close>,
  and yet the comparison returns a result. And the components are not compared as
  integers: the versions \<^verbatim>\<open>9007199254740993\<close> and \<^verbatim>\<open>9007199254740992\<close> differ, and the
  comparison finds them equal.
\<close>

theorem compareVersionStrings_claim_counterexample:
  "''==='' \<notin> {''=='', ''!='', ''<'', ''<='', ''>'', ''>='', ''=''}
   \<and> compareVersionStrings ''1.0'' ''==='' ''1.0'' = Inr True
   \<and> version_numbers ''9007199254740993'' = [9007199254740993]
   \<and> version_numbers ''9007199254740992'' = [9007199254740992]
   \<and> compareVersionStrings ''9007199254740993'' ''=='' ''9007199254740992'' = Inr True"
proof -
  have a: "compareVersionStrings ''1.0'' ''==='' ''1.0'' = Inr True"
    by (simp add: compareVersionStrings_def comparators_def Let_def js_split_dot_examples
        cmp_loop.simps part_at_def part_value_def parseInt10_def is_space_def is_digit_def
        digits_val_def digit_val_def eval_comparison_def round_double_def)
  have p: "parseInt10 ''9007199254740993'' = Some 9007199254740992"
      "parseInt10 ''9007199254740992'' = Some 9007199254740992"
    by (simp_all add: parseInt10_digits is_digit_def digits_val_big round_double_big)
  have b: "compareVersionStrings ''9007199254740993'' ''=='' ''9007199254740992'' = Inr True"
    by (simp add: compareVersionStrings_def comparators_def Let_def js_split_big
        cmp_loop.simps part_at_def part_value_def p eval_comparison_def)
  show ?thesis
    using a b by (simp add: version_numbers_def js_split_big digits_val_big)
qed

section \<open>Notifying the waiters of an endpoint\<close>

lemma drain_eq:
  "drain endpoint d err cbs log = ([], log @ map (\<lambda>cb. (endpoint, cb, d, err)) (rev cbs))"
proof (induction cbs arbitrary: log rule: rev_induct)
  case Nil
  show ?case by (subst drain.simps) simp
next
  case (snoc x xs)
  show ?case by (subst drain.simps) (simp add: snoc.IH)
qed

lemma executeCallbacks_Some:
  "cachedResponse s endpoint = Some entry \<Longrightarrow>
   executeCallbacks endpoint d err s =
     Inr (s\<lparr>cachedResponse := (cachedResponse s)(endpoint \<mapsto> entry\<lparr>callbacks := []\<rparr>),
            invoked := invoked s @ map (\<lambda>cb. (endpoint, cb, d, err)) (rev (callbacks entry))\<rparr>)"
  by (simp add: executeCallbacks_def drain_eq)

lemma executeCallbacks_None:
  "cachedResponse s endpoint = None \<Longrightarrow> executeCallbacks endpoint d err s = Inl TypeError"
  by (simp add: executeCallbacks_def)

text \<open>
  Claim C2, amended. When the fetch of an endpoint settles, with data or with an error,
  every waiter queued for that endpoint is called exactly once with the same
  \<open>(data, error)\<close> pair, and the calls go in the reverse of the queueing order: the
  waiter queued last is called first. The queue is empty afterwards.
\<close>

theorem executeCallbacks_notifies_each_once_in_reverse:
  assumes "cachedResponse s endpoint = Some entry"
  shows "\<exists>s'. executeCallbacks endpoint d err s = Inr s'
           \<and> invoked s' = invoked s @ map (\<lambda>cb. (endpoint, cb, d, err)) (rev (callbacks entry))
           \<and> mset (map (\<lambda>inv. fst (snd inv)) (drop (length (invoked s)) (invoked s')))
               = mset (callbacks entry)
           \<and> cachedResponse s' endpoint = Some (entry\<lparr>callbacks := []\<rparr>)"
  using executeCallbacks_Some [OF assms, of d err] by (simp add: multiset.map_comp comp_def)


lemma loaderX_simps:
  "endpoints loaderX = Some [''X'' \<mapsto> endpointX]"
  "cachedResponse loaderX = Map.empty" "chains loaderX = []" "fetches loaderX = []"
  "invoked loaderX = []" "logged loaderX = []"
  by (simp_all add: loaderX_def setEndpoints_def catalog_def EndpointLoader_def endpointX_def)

lemma two_waiters:
  "cachedResponse (run [Call ''X'' 1, Call ''X'' 2] loaderX) ''X''
     = Some \<lparr>loaded = False, callbacks = [1, 2], data = None\<rparr>"
  "invoked (run [Call ''X'' 1, Call ''X'' 2] loaderX) = []"
  by (simp_all add: run_def loadEndpoint_def loaderX_simps)

text \<open>Two waiters queued as 1, 2 are notified as 2, 1.\<close>

theorem executeCallbacks_notifies_each_once_in_reverse_witness:
  "cachedResponse (run [Call ''X'' 1, Call ''X'' 2] loaderX) ''X''
     = Some \<lparr>loaded = False, callbacks = [1, 2], data = None\<rparr>
   \<and> (\<exists>s'. executeCallbacks ''X'' (Some responseX) None (run [Call ''X'' 1, Call ''X'' 2] loaderX) = Inr s'
         \<and> invoked s' = [(''X'', 2, Some responseX, None), (''X'', 1, Some responseX, None)])"
  using executeCallbacks_notifies_each_once_in_reverse [OF two_waiters(1), of "Some responseX" None]
  by (auto simp add: two_waiters simp del: One_nat_def)

text \<open>
  Claim C2 as stated fails: with waiters queued in the order 1, 2, the waiter queued
  first is called last, on success and on failure of the fetch.
\<close>

theorem executeCallbacks_queue_order_counterexample:
  "callbacks (the (cachedResponse (run [Call ''X'' 1, Call ''X'' 2, Tick 0] loaderX) ''X'')) = [1, 2]
   \<and> map (\<lambda>inv. fst (snd inv))
        (invoked (run [Call ''X'' 1, Call ''X'' 2, Tick 0, FetchDone 0 (Inr responseX), Tick 0] loaderX))
       = [2, 1]
   \<and> map (\<lambda>inv. fst (snd inv))
        (invoked (run [Call ''X'' 1, Call ''X'' 2, Tick 0, FetchDone 0 (Inl (NetworkError ''500'')), Tick 0] loaderX))
       = [2, 1]"
  by (simp add: run_def loadEndpoint_def tick_def fetchDone_def set_position_def loaderX_simps
      executeCallbacks_def drain.simps Let_def)

section \<open>Objects and their keys\<close>

lemma obj_set_same: "obj_get ob k = Some v \<Longrightarrow> obj_set ob k v = ob"
  by (induction ob) (auto simp: obj_get_def split: if_splits)

lemma keys_obj_set:
  "map fst (obj_set ob k v)
     = (if k \<in> fst ` set ob \<or> k = ''__proto__'' then map fst ob else map fst ob @ [k])"
  by (induction ob) (fastforce simp: image_iff)+

lemma obj_get_obj_set:
  "obj_get (obj_set ob k v) k'
     = (if k' = k \<and> (k \<noteq> ''__proto__'' \<or> k \<in> fst ` set ob) then Some v else obj_get ob k')"
  by (induction ob) (force simp: obj_get_def image_iff)+

lemma obj_get_obj_set_other: "k' \<noteq> k \<Longrightarrow> obj_get (obj_set ob k v) k' = obj_get ob k'"
  by (simp add: obj_get_obj_set)

lemma set_object_keys: "set (object_keys ob) = fst ` set ob"
  by (auto simp: object_keys_def)

lemma obj_get_object_keys: "k \<in> set (object_keys ob) \<Longrightarrow> \<exists>v. obj_get ob k = Some v"
  unfolding set_object_keys obj_get_def
  by (metis map_of_eq_None_iff not_Some_eq)

lemma distinct_object_keys: "distinct (map fst ob) \<Longrightarrow> distinct (object_keys ob)"
  by (auto simp: object_keys_def)

text \<open>Object.keys of an object whose keys were inserted in enumeration order.\<close>

lemma object_keys_filtered:
  assumes "map fst ob' = filter P (object_keys ob)"
  shows "object_keys ob' = filter P (object_keys ob)"
proof -
  let ?I = "filter is_array_index (map fst ob)"
  let ?N = "filter (\<lambda>k. \<not> is_array_index k) (map fst ob)"
  let ?S = "filter P (sort_key index_value ?I)"
  have "\<forall>k \<in> set ?S. is_array_index k" by simp
  then have a: "filter is_array_index ?S = ?S"
    by (rule filter_True)
  have b: "filter (\<lambda>k. \<not> is_array_index k) ?S = []"
    unfolding filter_empty_conv by simp
  have a': "filter is_array_index (filter P ?N) = []"
    unfolding filter_empty_conv by simp
  have "\<forall>k \<in> set (filter P ?N). \<not> is_array_index k" by simp
  then have b': "filter (\<lambda>k. \<not> is_array_index k) (filter P ?N) = filter P ?N"
    by (rule filter_True)
  have "sorted (map index_value ?S)"
    by (rule sorted_filter) simp
  then have c: "sort_key index_value ?S = ?S"
    by (rule sort_key_id_if_sorted)
  show ?thesis
    unfolding object_keys_def [of ob'] assms
    unfolding object_keys_def [of ob]
    by (simp only: filter_append a b a' b' c append_Nil2 append_Nil sort_key_simps)
qed

lemma object_keys_idem:
  assumes "map fst ob' = object_keys ob"
  shows "object_keys ob' = object_keys ob"
  using object_keys_filtered [of ob' "\<lambda>k. True" ob] assms by simp

lemma object_keys_no_index:
  assumes "\<forall>k \<in> fst ` set ob. \<not> is_array_index k"
  shows "object_keys ob = map fst ob"
proof -
  have "filter is_array_index (map fst ob) = []"
    using assms by (simp add: filter_empty_conv)
  moreover have "filter (\<lambda>k. \<not> is_array_index k) (map fst ob) = map fst ob"
    using assms by (simp add: filter_id_conv)
  ultimately show ?thesis by (simp add: object_keys_def)
qed

section \<open>The order of the collected stats\<close>

lemma not_index_tsi: "\<not> is_array_index ''telemetryServiceInfo''"
  by (simp add: is_array_index_def is_digit_def)

lemma object_keys_append_non_index:
  assumes "map fst ob' = map fst ob @ [k]" and "\<not> is_array_index k"
  shows "object_keys ob' = object_keys ob @ [k]"
  unfolding object_keys_def assms(1) using assms(2) by simp

lemma object_keys_same_keys: "map fst ob' = map fst ob \<Longrightarrow> object_keys ob' = object_keys ob"
  by (simp add: object_keys_def)

lemma keys_fold_obj_set:
  "distinct ks \<Longrightarrow> set ks \<inter> fst ` set od = {} \<Longrightarrow>
   map fst (fold (\<lambda>key orderedData. obj_set orderedData key (f key)) ks od)
     = map fst od @ filter (\<lambda>k. k \<noteq> ''__proto__'') ks"
proof (induction ks arbitrary: od)
  case Nil
  then show ?case by simp
next
  case (Cons k ks)
  have k: "k \<notin> fst ` set od" using Cons.prems by auto
  have keys: "map fst (obj_set od k (f k)) = map fst od @ filter (\<lambda>k. k \<noteq> ''__proto__'') [k]"
    using k by (simp add: keys_obj_set)
  have "set (map fst (obj_set od k (f k))) \<subseteq> insert k (fst ` set od)"
    unfolding keys by auto
  then have "set ks \<inter> fst ` set (obj_set od k (f k)) = {}"
    using Cons.prems by auto
  then show ?case using Cons.IH [of "obj_set od k (f k)"] Cons.prems keys by simp
qed

lemma keys_collect_ordered:
  "distinct (map fst pStats) \<Longrightarrow>
   map fst (collect_ordered pStats s) = filter (\<lambda>k. k \<noteq> ''__proto__'') (object_keys pStats)"
  unfolding collect_ordered_def
  using keys_fold_obj_set [of "object_keys pStats" "[]" "\<lambda>key. obj_get (collectedData s) key"]
  by (simp add: distinct_object_keys)

lemma object_keys_collect_result:
  assumes "distinct (map fst pStats)"
  shows "object_keys (collect_result pStats otherPropsToInject s)
           = filter (\<lambda>k. k \<noteq> ''__proto__'') (object_keys pStats)
             @ (if ''telemetryServiceInfo'' \<in> fst ` set pStats then [] else [''telemetryServiceInfo''])"
proof -
  let ?ks = "filter (\<lambda>k. k \<noteq> ''__proto__'') (object_keys pStats)"
  have k: "map fst (collect_ordered pStats s) = ?ks"
    using assms by (rule keys_collect_ordered)
  have ok: "object_keys (collect_ordered pStats s) = ?ks"
    using k by (rule object_keys_filtered)
  have mem: "''telemetryServiceInfo'' \<in> fst ` set (collect_ordered pStats s)
               \<longleftrightarrow> ''telemetryServiceInfo'' \<in> fst ` set pStats"
  proof -
    have "fst ` set (collect_ordered pStats s) = set ?ks"
      using k by (metis list.set_map)
    then show ?thesis by (simp add: set_object_keys)
  qed
  show ?thesis
  proof (cases "''telemetryServiceInfo'' \<in> fst ` set pStats")
    case True
    then have "map fst (collect_result pStats otherPropsToInject s)
                 = map fst (collect_ordered pStats s)"
      using mem by (simp add: collect_result_def Let_def keys_obj_set)
    then have "object_keys (collect_result pStats otherPropsToInject s)
                 = object_keys (collect_ordered pStats s)"
      by (rule object_keys_same_keys)
    then show ?thesis using True ok by simp
  next
    case False
    then have "map fst (collect_result pStats otherPropsToInject s)
                 = map fst (collect_ordered pStats s) @ [''telemetryServiceInfo'']"
      using mem by (simp add: collect_result_def Let_def keys_obj_set)
    then have "object_keys (collect_result pStats otherPropsToInject s)
                 = object_keys (collect_ordered pStats s) @ [''telemetryServiceInfo'']"
      using not_index_tsi by (rule object_keys_append_non_index)
    then show ?thesis using False ok by simp
  qed
qed

text \<open>
  Claim C8, amended. The stat map returned by a collection cycle lists its keys in the
  enumeration order of the declared stat properties, whatever the order in which the
  properties resolved and stored their values: the declared keys that are array indices
  come first, in ascending numeric order, then the other declared keys in the order of
  declaration, a key \<^verbatim>\<open>__proto__\<close> being left out; \<^verbatim>\<open>telemetryServiceInfo\<close> follows them unless
  it is a declared key itself. When no declared key is an array index or \<^verbatim>\<open>__proto__\<close>, this
  is the order of declaration.
\<close>

theorem collect_result_keys_in_enumeration_order:
  assumes "distinct (map fst pStats)"
  shows "object_keys (collect_result pStats otherPropsToInject (stats_resolved completions s))
           = filter (\<lambda>k. k \<noteq> ''__proto__'') (object_keys pStats)
             @ (if ''telemetryServiceInfo'' \<in> fst ` set pStats then [] else [''telemetryServiceInfo''])
         \<and> ((\<forall>k \<in> fst ` set pStats. \<not> is_array_index k \<and> k \<noteq> ''__proto__'') \<longrightarrow>
              object_keys (collect_result pStats otherPropsToInject (stats_resolved completions s))
                = map fst pStats
                  @ (if ''telemetryServiceInfo'' \<in> fst ` set pStats then [] else [''telemetryServiceInfo'']))"
proof (intro conjI impI)
  show a: "object_keys (collect_result pStats otherPropsToInject (stats_resolved completions s))
           = filter (\<lambda>k. k \<noteq> ''__proto__'') (object_keys pStats)
             @ (if ''telemetryServiceInfo'' \<in> fst ` set pStats then [] else [''telemetryServiceInfo''])"
    using assms by (rule object_keys_collect_result)
  assume plain: "\<forall>k \<in> fst ` set pStats. \<not> is_array_index k \<and> k \<noteq> ''__proto__''"
  then have "object_keys pStats = map fst pStats"
    by (simp add: object_keys_no_index)
  moreover have "filter (\<lambda>k. k \<noteq> ''__proto__'') (map fst pStats) = map fst pStats"
    using plain by (simp add: filter_id_conv)
  ultimately show "object_keys (collect_result pStats otherPropsToInject (stats_resolved completions s))
                = map fst pStats
                  @ (if ''telemetryServiceInfo'' \<in> fst ` set pStats then [] else [''telemetryServiceInfo''])"
    using a by simp
qed

lemma object_keys_statsABC: "object_keys statsABC = [''a'', ''b'', ''c'']"
  by (simp add: object_keys_def statsABC_def is_array_index_def is_digit_def)

text \<open>Declared order \<^verbatim>\<open>a\<close>, \<^verbatim>\<open>b\<close>, \<^verbatim>\<open>c\<close>, with \<^verbatim>\<open>c\<close> resolving first: the keys come out as declared.\<close>

theorem collect_result_keys_in_enumeration_order_witness:
  "distinct (map fst statsABC)
   \<and> map fst statsABC = [''a'', ''b'', ''c'']
   \<and> object_keys (collect_result statsABC None
         (stats_resolved [(''c'', JNum 3), (''a'', JNum 1), (''b'', JNum 2)] stats0))
       = [''a'', ''b'', ''c'', ''telemetryServiceInfo'']"
proof -
  have d: "distinct (map fst statsABC)" and m: "map fst statsABC = [''a'', ''b'', ''c'']"
    by (simp_all add: statsABC_def)
  have plain: "\<forall>k \<in> fst ` set statsABC. \<not> is_array_index k \<and> k \<noteq> ''__proto__''"
    by (simp add: statsABC_def is_array_index_def is_digit_def)
  have n: "''telemetryServiceInfo'' \<notin> fst ` set statsABC"
    by (simp add: statsABC_def)
  show ?thesis
    using d m plain n collect_result_keys_in_enumeration_order [OF d, of None
        "[(''c'', JNum 3), (''a'', JNum 1), (''b'', JNum 2)]" stats0]
    by (simp add: object_keys_statsABC)
qed

lemma index_1: "is_array_index ''1''" "index_value ''1'' = 1" "\<not> is_array_index ''b''"
  by (simp_all add: is_array_index_def is_digit_def index_value_def digits_val_def digit_val_def)

text \<open>
  Claim C8 as stated fails: with the stats declared in the order \<^verbatim>\<open>b\<close>, \<^verbatim>\<open>1\<close>, the stat map
  lists \<^verbatim>\<open>1\<close> before \<^verbatim>\<open>b\<close>.
\<close>

theorem collect_result_declared_order_counterexample:
  "map fst statsB1 = [''b'', ''1'']
   \<and> object_keys (collect_result statsB1 None
         (stats_resolved [(''b'', JNum 2), (''1'', JNum 1)] stats0))
       = [''1'', ''b'', ''telemetryServiceInfo'']"
  by (simp add: statsB1_def collect_result_def collect_ordered_def object_keys_def index_1
      not_index_tsi obj_get_def stats_resolved_def store_collected_def stats0_def)

section \<open>Reconciliation of the event listeners\<close>

lemma reconcile_running_same:
  assumes "lc_enable lConfig \<noteq> Some False"
    and "obj_get listeners k = Some (start (listener_port D lConfig) (listener_tags lConfig))"
  shows "reconcile_entry D k lConfig (listeners, acts) =
           (listeners, acts @ [Stop k (start (listener_port D lConfig) (listener_tags lConfig)),
                               Start k (start (listener_port D lConfig) (listener_tags lConfig))])"
  using assms by (simp add: reconcile_entry_def Let_def obj_set_same)

lemma fold_identical:
  assumes "\<forall>k \<in> set ks. case obj_get cfg k of None \<Rightarrow> False
             | Some lConfig \<Rightarrow> lc_enable lConfig \<noteq> Some False
                 \<and> obj_get listeners k = Some (start (listener_port D lConfig) (listener_tags lConfig))"
  shows "fold (\<lambda>k st. case obj_get cfg k of None \<Rightarrow> st | Some lConfig \<Rightarrow> reconcile_entry D k lConfig st)
           ks (listeners, acts)
         = (listeners, acts @ concat (map (restart D cfg) ks))"
  using assms
proof (induction ks arbitrary: acts)
  case Nil
  then show ?case by simp
next
  case (Cons k ks)
  from Cons.prems obtain lConfig where lc: "obj_get cfg k = Some lConfig"
      "lc_enable lConfig \<noteq> Some False"
      "obj_get listeners k = Some (start (listener_port D lConfig) (listener_tags lConfig))"
    by (auto split: option.splits)
  have rest: "\<forall>k \<in> set ks. case obj_get cfg k of None \<Rightarrow> False
             | Some lConfig \<Rightarrow> lc_enable lConfig \<noteq> Some False
                 \<and> obj_get listeners k = Some (start (listener_port D lConfig) (listener_tags lConfig))"
    using Cons.prems by simp
  show ?case
    using Cons.IH [OF rest] lc
    by (simp add: reconcile_running_same restart_def)
qed

lemma on_change_identical:
  assumes "matches_running D cfg listeners"
  shows "on_change D (Some cfg) listeners = (listeners, concat (map (restart D cfg) (object_keys cfg)))"
  using fold_identical [where ks = "object_keys cfg" and cfg = cfg and listeners = listeners
      and D = D and acts = "[]"] assms
  by (simp add: on_change_def matches_running_def)

lemma length_concat_const:
  "\<forall>k \<in> set ks. length (f k) = n \<Longrightarrow> length (concat (map f ks)) = n * length ks"
  by (induction ks) simp_all

text \<open>What the handling of one entry does to another listener: nothing.\<close>

lemma obj_get_obj_delete_other: "k' \<noteq> k \<Longrightarrow> obj_get (obj_delete ob k') k = obj_get ob k"
  by (induction ob) (auto simp: obj_get_def obj_delete_def)

lemma reconcile_entry_other:
  assumes "k' \<noteq> k"
  shows "obj_get (fst (reconcile_entry D k' lConfig st)) k = obj_get (fst st) k"
    and "filter (\<lambda>a. action_name a = k) (snd (reconcile_entry D k' lConfig st))
           = filter (\<lambda>a. action_name a = k) (snd st)"
  using assms
  by (auto simp: reconcile_entry_def Let_def obj_get_obj_set_other obj_get_obj_delete_other
      split: option.splits)

lemma reconcile_entry_running:
  assumes "lc_enable lConfig \<noteq> Some False" and "obj_get (fst st) k = Some srv"
  shows "obj_get (fst (reconcile_entry D k lConfig st)) k
           = Some (start (listener_port D lConfig) (listener_tags lConfig))"
    and "filter (\<lambda>a. action_name a = k) (snd (reconcile_entry D k lConfig st))
           = filter (\<lambda>a. action_name a = k) (snd st)
             @ [Stop k srv, Start k (start (listener_port D lConfig) (listener_tags lConfig))]"
proof -
  have own: "k \<in> fst ` set (fst st)"
    using assms(2) unfolding obj_get_def by (metis map_of_SomeD image_eqI fst_conv)
  show "obj_get (fst (reconcile_entry D k lConfig st)) k
           = Some (start (listener_port D lConfig) (listener_tags lConfig))"
    using assms own by (simp add: reconcile_entry_def Let_def obj_get_obj_set)
  show "filter (\<lambda>a. action_name a = k) (snd (reconcile_entry D k lConfig st))
           = filter (\<lambda>a. action_name a = k) (snd st)
             @ [Stop k srv, Start k (start (listener_port D lConfig) (listener_tags lConfig))]"
    using assms by (simp add: reconcile_entry_def Let_def)
qed

lemma fold_reconcile_other:
  assumes "k \<notin> set ks"
  shows "obj_get (fst (fold (\<lambda>k st. case obj_get cfg k of None \<Rightarrow> st
                                     | Some lConfig \<Rightarrow> reconcile_entry D k lConfig st) ks st)) k
           = obj_get (fst st) k
         \<and> filter (\<lambda>a. action_name a = k)
             (snd (fold (\<lambda>k st. case obj_get cfg k of None \<Rightarrow> st
                                 | Some lConfig \<Rightarrow> reconcile_entry D k lConfig st) ks st))
           = filter (\<lambda>a. action_name a = k) (snd st)"
  using assms
proof (induction ks arbitrary: st)
  case Nil
  then show ?case by simp
next
  case (Cons k' ks)
  then have ne: "k' \<noteq> k" and notin: "k \<notin> set ks" by auto
  let ?st = "case obj_get cfg k' of None \<Rightarrow> st | Some lConfig \<Rightarrow> reconcile_entry D k' lConfig st"
  have one: "obj_get (fst ?st) k = obj_get (fst st) k"
      "filter (\<lambda>a. action_name a = k) (snd ?st) = filter (\<lambda>a. action_name a = k) (snd st)"
    using reconcile_entry_other [OF ne] by (simp_all split: option.splits)
  show ?case using Cons.IH [OF notin, of ?st] one by simp
qed

lemma fold_reconcile_running:
  assumes "distinct ks" and "k \<in> set ks" and "obj_get cfg k = Some lConfig"
    and "lc_enable lConfig \<noteq> Some False" and "obj_get (fst st) k = Some srv"
  shows "obj_get (fst (fold (\<lambda>k st. case obj_get cfg k of None \<Rightarrow> st
                                     | Some lConfig \<Rightarrow> reconcile_entry D k lConfig st) ks st)) k
           = Some (start (listener_port D lConfig) (listener_tags lConfig))
         \<and> filter (\<lambda>a. action_name a = k)
             (snd (fold (\<lambda>k st. case obj_get cfg k of None \<Rightarrow> st
                                 | Some lConfig \<Rightarrow> reconcile_entry D k lConfig st) ks st))
           = filter (\<lambda>a. action_name a = k) (snd st)
             @ [Stop k srv, Start k (start (listener_port D lConfig) (listener_tags lConfig))]"
  using assms(1,2,5)
proof (induction ks arbitrary: st)
  case Nil
  then show ?case by simp
next
  case (Cons k' ks)
  let ?st = "case obj_get cfg k' of None \<Rightarrow> st | Some lConfig \<Rightarrow> reconcile_entry D k' lConfig st"
  show ?case
  proof (cases "k' = k")
    case True
    then have notin: "k \<notin> set ks" using Cons.prems(1) by simp
    have st: "?st = reconcile_entry D k lConfig st" using True assms(3) by simp
    show ?thesis
      using fold_reconcile_other [OF notin, where cfg = cfg and D = D and st = ?st]
        reconcile_entry_running [OF assms(4) Cons.prems(3), of D]
      by (simp add: True assms(3))
  next
    case False
    then have mem: "k \<in> set ks" and d: "distinct ks" using Cons.prems by auto
    have one: "obj_get (fst ?st) k = Some srv"
        "filter (\<lambda>a. action_name a = k) (snd ?st) = filter (\<lambda>a. action_name a = k) (snd st)"
      using reconcile_entry_other [OF False] Cons.prems(3) by (simp_all split: option.splits)
    show ?thesis using Cons.IH [OF d mem one(1)] one(2) by simp
  qed
qed

text \<open>
  Claim C6, amended. Reconciliation restarts every enabled entry that is already
  running. Applying a configuration identical to the running listener state stops and
  starts each of its listeners once, in key order, with unchanged settings (two actions
  per entry, the registry as before). Applying a configuration in which the entry of a
  running listener is enabled, with a changed port or not, produces for that listener
  exactly one stop, of the running server, followed by one start bound to the port of
  the entry, whatever the other entries are; the other running listeners that the
  configuration enables are restarted as well. Listener names are other than
  \<^verbatim>\<open>__proto__\<close>.
\<close>

theorem on_change_restarts_running_listeners:
  "(''__proto__'' \<notin> fst ` set cfg \<and> matches_running D cfg listeners \<longrightarrow>
      on_change D (Some cfg) listeners
        = (listeners, concat (map (restart D cfg) (object_keys cfg)))
      \<and> length (snd (on_change D (Some cfg) listeners)) = 2 * length (object_keys cfg))
   \<and> (''__proto__'' \<notin> fst ` set cfg \<and> distinct (map fst cfg) \<and> obj_get cfg k = Some lConfig
        \<and> lc_enable lConfig \<noteq> Some False \<and> obj_get listeners k = Some srv \<longrightarrow>
      filter (\<lambda>a. action_name a = k) (snd (on_change D (Some cfg) listeners))
        = [Stop k srv, Start k (start (listener_port D lConfig) (listener_tags lConfig))]
      \<and> obj_get (fst (on_change D (Some cfg) listeners)) k
          = Some (start (listener_port D lConfig) (listener_tags lConfig)))"
proof (intro conjI impI)
  assume "''__proto__'' \<notin> fst ` set cfg \<and> matches_running D cfg listeners"
  then have m: "matches_running D cfg listeners" by simp
  show "on_change D (Some cfg) listeners = (listeners, concat (map (restart D cfg) (object_keys cfg)))"
    using m by (rule on_change_identical)
  have "\<forall>k \<in> set (object_keys cfg). length (restart D cfg k) = 2"
    using obj_get_object_keys [of _ cfg] by (fastforce simp: restart_def)
  then have "length (concat (map (restart D cfg) (object_keys cfg))) = 2 * length (object_keys cfg)"
    by (rule length_concat_const)
  then show "length (snd (on_change D (Some cfg) listeners)) = 2 * length (object_keys cfg)"
    using on_change_identical [OF m] by simp
next
  assume a: "''__proto__'' \<notin> fst ` set cfg \<and> distinct (map fst cfg) \<and> obj_get cfg k = Some lConfig
        \<and> lc_enable lConfig \<noteq> Some False \<and> obj_get listeners k = Some srv"
  have d: "distinct (object_keys cfg)" using a by (simp add: distinct_object_keys)
  have "k \<in> fst ` set cfg"
    using a unfolding obj_get_def by (metis map_of_SomeD image_eqI fst_conv)
  then have mem: "k \<in> set (object_keys cfg)" by (simp add: set_object_keys)
  have lc: "obj_get cfg k = Some lConfig" and en: "lc_enable lConfig \<noteq> Some False"
    and run: "obj_get (fst (listeners, [])) k = Some srv"
    using a by simp_all
  note F = fold_reconcile_running [OF d mem lc en run, of D]
  show "filter (\<lambda>a. action_name a = k) (snd (on_change D (Some cfg) listeners))
        = [Stop k srv, Start k (start (listener_port D lConfig) (listener_tags lConfig))]"
    using F by (simp add: on_change_def)
  show "obj_get (fst (on_change D (Some cfg) listeners)) k
          = Some (start (listener_port D lConfig) (listener_tags lConfig))"
    using F by (simp add: on_change_def)
qed

lemma listener6514_running:
  "fst (on_change 6514 (Some listener6514) []) = [(''My_Listener'', \<lparr>sv_port = 6514, sv_tags = JObj []\<rparr>)]"
  by (simp add: on_change_def listener6514_def object_keys_def is_array_index_def is_digit_def
      obj_get_def reconcile_entry_def listener_port_def listener_tags_def truthy_opt_def start_def
      object_prototype_member_def Let_def)

lemma keys_two:
  "object_keys twoListeners = [''First'', ''Second'']" "object_keys firstMoved = [''First'', ''Second'']"
  by (simp_all add: object_keys_def twoListeners_def firstMoved_def is_array_index_def is_digit_def)

text \<open>
  Two running listeners. Pushed again unchanged, their configuration stops and starts
  both. With the first one moved to port 6516, that listener is stopped and started on
  6516; the second one, whose entry did not change, is stopped and started too.
\<close>

theorem on_change_restarts_running_listeners_witness:
  "matches_running 6514 twoListeners twoRunning
   \<and> on_change 6514 (Some twoListeners) twoRunning
       = (twoRunning,
          [Stop ''First'' \<lparr>sv_port = 6514, sv_tags = JObj []\<rparr>,
           Start ''First'' \<lparr>sv_port = 6514, sv_tags = JObj []\<rparr>,
           Stop ''Second'' \<lparr>sv_port = 6515, sv_tags = JObj []\<rparr>,
           Start ''Second'' \<lparr>sv_port = 6515, sv_tags = JObj []\<rparr>])
   \<and> filter (\<lambda>a. action_name a = ''First'') (snd (on_change 6514 (Some firstMoved) twoRunning))
       = [Stop ''First'' \<lparr>sv_port = 6514, sv_tags = JObj []\<rparr>,
          Start ''First'' \<lparr>sv_port = 6516, sv_tags = JObj []\<rparr>]
   \<and> snd (on_change 6514 (Some firstMoved) twoRunning)
       = [Stop ''First'' \<lparr>sv_port = 6514, sv_tags = JObj []\<rparr>,
          Start ''First'' \<lparr>sv_port = 6516, sv_tags = JObj []\<rparr>,
          Stop ''Second'' \<lparr>sv_port = 6515, sv_tags = JObj []\<rparr>,
          Start ''Second'' \<lparr>sv_port = 6515, sv_tags = JObj []\<rparr>]"
proof -
  have m: "matches_running 6514 twoListeners twoRunning"
    unfolding matches_running_def keys_two
    by (simp add: twoListeners_def twoRunning_def obj_get_def listener_port_def listener_tags_def
        truthy_opt_def start_def)
  have p: "''__proto__'' \<notin> fst ` set twoListeners" "''__proto__'' \<notin> fst ` set firstMoved"
    and d: "distinct (map fst firstMoved)"
    and lc: "obj_get firstMoved ''First'' = Some \<lparr>lc_port = Some 6516, lc_tag = None, lc_enable = None\<rparr>"
    and run: "obj_get twoRunning ''First'' = Some \<lparr>sv_port = 6514, sv_tags = JObj []\<rparr>"
    by (simp_all add: twoListeners_def firstMoved_def twoRunning_def obj_get_def)
  have en: "lc_enable \<lparr>lc_port = Some 6516, lc_tag = None, lc_enable = None\<rparr> \<noteq> Some False"
    by simp
  have all: "snd (on_change 6514 (Some firstMoved) twoRunning)
       = [Stop ''First'' \<lparr>sv_port = 6514, sv_tags = JObj []\<rparr>,
          Start ''First'' \<lparr>sv_port = 6516, sv_tags = JObj []\<rparr>,
          Stop ''Second'' \<lparr>sv_port = 6515, sv_tags = JObj []\<rparr>,
          Start ''Second'' \<lparr>sv_port = 6515, sv_tags = JObj []\<rparr>]"
    by (simp add: on_change_def keys_two)
       (simp add: firstMoved_def twoRunning_def obj_get_def
          reconcile_entry_def listener_port_def listener_tags_def truthy_opt_def start_def Let_def)
  have r: "restart 6514 twoListeners ''First''
             = [Stop ''First'' \<lparr>sv_port = 6514, sv_tags = JObj []\<rparr>,
                Start ''First'' \<lparr>sv_port = 6514, sv_tags = JObj []\<rparr>]"
      "restart 6514 twoListeners ''Second''
             = [Stop ''Second'' \<lparr>sv_port = 6515, sv_tags = JObj []\<rparr>,
                Start ''Second'' \<lparr>sv_port = 6515, sv_tags = JObj []\<rparr>]"
    by (simp_all add: restart_def twoListeners_def obj_get_def listener_port_def listener_tags_def
        truthy_opt_def start_def)
  have s: "start (listener_port 6514 \<lparr>lc_port = Some 6516, lc_tag = None, lc_enable = None\<rparr>)
             (listener_tags \<lparr>lc_port = Some 6516, lc_tag = None, lc_enable = None\<rparr>)
           = \<lparr>sv_port = 6516, sv_tags = JObj []\<rparr>"
    by (simp add: listener_port_def listener_tags_def truthy_opt_def start_def)
  show ?thesis
    using m p d lc run en all
      on_change_restarts_running_listeners [of twoListeners 6514 twoRunning "''First''"
        "\<lparr>lc_port = Some 6516, lc_tag = None, lc_enable = None\<rparr>"
        "\<lparr>sv_port = 6514, sv_tags = JObj []\<rparr>"]
      on_change_restarts_running_listeners [of firstMoved 6514 twoRunning "''First''"
        "\<lparr>lc_port = Some 6516, lc_tag = None, lc_enable = None\<rparr>"
        "\<lparr>sv_port = 6514, sv_tags = JObj []\<rparr>"]
    by (simp add: keys_two r s)
qed

text \<open>
  Claim C6 as stated fails: pushing the configuration a second time, unchanged, does
  not produce zero actions but a stop and a start of the running listener.
\<close>

theorem on_change_identical_configuration_counterexample:
  "snd (on_change 6514 (Some listener6514) (fst (on_change 6514 (Some listener6514) [])))
     = [Stop ''My_Listener'' \<lparr>sv_port = 6514, sv_tags = JObj []\<rparr>,
        Start ''My_Listener'' \<lparr>sv_port = 6514, sv_tags = JObj []\<rparr>]"
  unfolding listener6514_running
  by (simp add: on_change_def listener6514_def object_keys_def is_array_index_def is_digit_def
      obj_get_def reconcile_entry_def listener_port_def listener_tags_def truthy_opt_def start_def
      Let_def)

section \<open>Conditional properties\<close>

text \<open>What is read from an object after \<^verbatim>\<open>Object.assign\<close>, and from the gathered entries.\<close>

lemma obj_get_fold_assign:
  assumes "k \<noteq> ''__proto__''"
  shows "obj_get (fold (\<lambda>k' t. case obj_get src k' of None \<Rightarrow> t | Some v \<Rightarrow> obj_set t k' v) ks t) k
           = (if k \<in> set ks \<and> obj_get src k \<noteq> None then obj_get src k else obj_get t k)"
proof (induction ks arbitrary: t)
  case Nil
  then show ?case by simp
next
  case (Cons k' ks)
  show ?case
  proof (cases "obj_get src k'")
    case None
    then show ?thesis using Cons.IH [of t] by auto
  next
    case (Some v)
    then show ?thesis
      using Cons.IH [of "obj_set t k' v"] assms by (auto simp: obj_get_obj_set)
  qed
qed

lemma obj_get_obj_assign:
  assumes "k \<noteq> ''__proto__''"
  shows "obj_get (obj_assign t src) k = (case obj_get src k of None \<Rightarrow> obj_get t k | Some v \<Rightarrow> Some v)"
proof -
  have "obj_get src k \<noteq> None \<Longrightarrow> k \<in> set (object_keys src)"
    unfolding set_object_keys obj_get_def by (simp add: map_of_eq_None_iff)
  then show ?thesis
    unfolding obj_assign_def obj_get_fold_assign [OF assms]
    by (auto split: option.splits)
qed

lemma deepest_entry_Nil: "deepest_entry [] k = None"
  by (simp add: deepest_entry_def)

lemma deepest_entry_Cons:
  "deepest_entry (ents # lvls) k
     = (case deepest_entry lvls k of None \<Rightarrow> obj_get ents k | Some v \<Rightarrow> Some v)"
proof (cases "filter (\<lambda>ents. obj_get ents k \<noteq> None) (rev lvls)")
  case Nil
  then show ?thesis by (auto simp: deepest_entry_def)
next
  case (Cons e es)
  then have "e \<in> set (filter (\<lambda>ents. obj_get ents k \<noteq> None) (rev lvls))" by simp
  then have "obj_get e k \<noteq> None" by simp
  then show ?thesis using Cons by (auto simp: deepest_entry_def)
qed

lemma obj_get_fold_levels:
  assumes "k \<noteq> ''__proto__''"
  shows "obj_get (fold (\<lambda>ents newObj. obj_assign newObj ents) lvls newObj) k
           = (case deepest_entry lvls k of None \<Rightarrow> obj_get newObj k | Some v \<Rightarrow> Some v)"
proof (induction lvls arbitrary: newObj)
  case Nil
  then show ?case by (simp add: deepest_entry_Nil)
next
  case (Cons ents lvls)
  show ?case
    using Cons.IH [of "obj_assign newObj ents"]
    by (simp add: deepest_entry_Cons obj_get_obj_assign [OF assms] split: option.splits)
qed

lemma obj_get_gathered:
  assumes "k \<noteq> ''__proto__''"
  shows "obj_get (gathered lvls) k = deepest_entry lvls k"
proof -
  have "obj_get ([] :: json obj) k = None" by (simp add: obj_get_def)
  then show ?thesis
    unfolding gathered_def obj_get_fold_levels [OF assms] by (simp split: option.splits)
qed

text \<open>A walk that ends at an undefined branch gathers the entries of its levels.\<close>

lemma walk_levels:
  "selects_undefined ctx property \<Longrightarrow>
   walk ctx property newObj
     = Inr (fold (\<lambda>ents newObj. obj_assign newObj ents) (levels ctx property) newObj)"
proof (induction ctx property newObj rule: walk.induct)
  case (1 ctx ents ifb th el newObj)
  show ?case
  proof (cases ifb)
    case None
    then show ?thesis using "1.prems" by simp
  next
    case (Some block)
    show ?thesis
    proof (cases "resolveConditional ctx block")
      case (Inl err)
      then show ?thesis using "1.prems" Some by simp
    next
      case (Inr b)
      show ?thesis
      proof (cases b)
        case True
        then show ?thesis
          using "1.IH"(1) [of block b] "1.prems" Some Inr
          by (cases th) auto
      next
        case False
        then show ?thesis
          using "1.IH"(2) [of block b] "1.prems" Some Inr
          by (cases el) auto
      qed
    qed
  qed
qed

lemma preprocessProperty_selects_undefined:
  assumes "selects_undefined ctx property"
  shows "preprocessProperty ctx property = Inr (gathered (levels ctx property))"
proof (cases property)
  case (Property ents ifb th el)
  then have "ifb \<noteq> None" using assms by (auto split: option.splits)
  then show ?thesis
    using walk_levels [OF assms, of "[]"] Property
    by (auto simp: preprocessProperty_def gathered_def)
qed

lemma renderProperty_disabled:
  "renderProperty render ctx pre = Inr rendered \<Longrightarrow>
   obj_get rendered ''disabled'' = obj_get pre ''disabled''"
  by (auto simp: renderProperty_def obj_get_obj_set split: if_splits sum.splits)

lemma loadData_not_Disabled: "fst (loadData sep key property s) \<noteq> Disabled"
  by (auto simp: loadData_def Let_def split: option.splits json.splits)

lemma processProperty_Disabled_iff:
  assumes "preprocessProperty (contextData s) property = Inr pre"
  shows "fst (processProperty render sep key property s) = Disabled
           \<longleftrightarrow> truthy_opt (obj_get pre ''disabled'') \<and> \<not> isl (renderProperty render (contextData s) pre)"
proof (cases "renderProperty render (contextData s) pre")
  case (Inl err)
  then show ?thesis using assms by (simp add: processProperty_def)
next
  case (Inr rendered)
  then show ?thesis
    using assms renderProperty_disabled [OF Inr] loadData_not_Disabled [of sep key rendered s]
    by (simp add: processProperty_def)
qed

lemma processProperty_Disabled_state:
  "fst (processProperty render sep key property s) = Disabled \<Longrightarrow>
   processProperty render sep key property s = (Disabled, s)"
  using loadData_not_Disabled [of sep key _ s]
  by (auto simp: processProperty_def split: sum.splits if_splits)

text \<open>
  Claim C9, amended. For every property whose conditional walk selects a \<^verbatim>\<open>then\<close> or
  \<^verbatim>\<open>else\<close> branch that is undefined, preprocessing does not fail and yields the entries
  gathered on the levels walked: under every key (other than \<^verbatim>\<open>__proto__\<close>) the entry of
  the deepest level walked that has the key. The property is then effectively disabled
  (it resolves at once, stores no value, asks the loader for nothing and does not fail)
  exactly when the \<^verbatim>\<open>disabled\<close> entry so gathered is truthy and its key, if it has one,
  renders; the undefined branch alone does not disable it.
\<close>

theorem undefined_branch_disabled_only_by_flag:
  assumes "selects_undefined (contextData s) property"
  shows "preprocessProperty (contextData s) property
           = Inr (gathered (levels (contextData s) property))
         \<and> (\<forall>k. k \<noteq> ''__proto__'' \<longrightarrow>
               obj_get (gathered (levels (contextData s) property)) k
                 = deepest_entry (levels (contextData s) property) k)
         \<and> (fst (processProperty render sep key property s) = Disabled
              \<longleftrightarrow> truthy_opt (deepest_entry (levels (contextData s) property) ''disabled'')
                    \<and> \<not> isl (renderProperty render (contextData s)
                               (gathered (levels (contextData s) property))))
         \<and> (fst (processProperty render sep key property s) = Disabled
              \<longrightarrow> processProperty render sep key property s = (Disabled, s))"
proof -
  let ?pre = "gathered (levels (contextData s) property)"
  have pre: "preprocessProperty (contextData s) property = Inr ?pre"
    using assms by (rule preprocessProperty_selects_undefined)
  have flag: "obj_get ?pre ''disabled'' = deepest_entry (levels (contextData s) property) ''disabled''"
    by (rule obj_get_gathered) simp
  show ?thesis
    using pre flag obj_get_gathered [of _ "levels (contextData s) property"]
      processProperty_Disabled_iff [OF pre, of render sep key]
      processProperty_Disabled_state [of render sep key property s]
    by simp
qed

lemma object_keys_dvge:
  "object_keys [(''deviceVersionGreaterOrEqual'', v)] = [''deviceVersionGreaterOrEqual'']"
  by (simp add: object_keys_def is_array_index_def is_digit_def)

lemma split_dot_13_14:
  "js_split ''.'' ''13.1'' = [''13'', ''1'']" "js_split ''.'' ''14.0'' = [''14'', ''0'']"
  "js_split ''.'' ''13.0'' = [''13'', ''0'']" "js_split ''.'' ''14.1'' = [''14'', ''1'']"
  by (simp_all add: js_split_def split_from.simps)

lemma compare_13_14:
  "compareVersionStrings ''13.1'' ''>='' ''14.0'' = Inr False"
  "compareVersionStrings ''14.1'' ''>='' ''13.0'' = Inr True"
  "compareVersionStrings ''13.1'' ''>='' ''13.0'' = Inr True"
  by (simp_all add: compareVersionStrings_def comparators_def Let_def split_dot_13_14
      cmp_loop.simps part_at_def part_value_def parseInt10_def is_space_def is_digit_def
      digits_val_def digit_val_def eval_comparison_def round_double_def)

lemma resolve_13_14:
  "resolveConditional [(''deviceVersion'', JStr ''13.1'')] [(''deviceVersionGreaterOrEqual'', JStr ''14.0'')]
     = Inr False"
  "resolveConditional [(''deviceVersion'', JStr ''13.1'')] [(''deviceVersionGreaterOrEqual'', JStr ''13.0'')]
     = Inr True"
  by (simp_all add: resolveConditional_def object_keys_dvge obj_get_def deviceVersionGreaterOrEqual_def
      compare_13_14)

lemma stats13_simps: "contextData stats13 = [(''deviceVersion'', JStr ''13.1'')]"
  by (simp add: stats13_def)

lemma object_keys_entries:
  "object_keys [(''key'', v), (''disabled'', w)] = [''key'', ''disabled'']"
  "object_keys [(''disabled'', w)] = [''disabled'']"
  by (simp_all add: object_keys_def is_array_index_def is_digit_def)

text \<open>
  With the device at version 13.1, the walk of the property of two levels goes through
  both and ends at the missing \<^verbatim>\<open>else\<close> of the inner one: the \<^verbatim>\<open>disabled\<close> entry gathered is
  that of the inner level, and the property is disabled.
\<close>

theorem undefined_branch_disabled_only_by_flag_witness:
  "selects_undefined (contextData stats13) nested14
   \<and> levels (contextData stats13) nested14
       = [[(''key'', JStr ''/mgmt/tm/a''), (''disabled'', JBool False)], [(''disabled'', JBool True)]]
   \<and> preprocessProperty (contextData stats13) nested14
       = Inr [(''key'', JStr ''/mgmt/tm/a''), (''disabled'', JBool True)]
   \<and> obj_get [(''key'', JStr ''/mgmt/tm/a''), (''disabled'', JBool True)] ''disabled''
       = deepest_entry
           [[(''key'', JStr ''/mgmt/tm/a''), (''disabled'', JBool False)], [(''disabled'', JBool True)]]
           ''disabled''
   \<and> processProperty render_plain ''::'' ''a'' nested14 stats13 = (Disabled, stats13)"
proof -
  have sel: "selects_undefined (contextData stats13) nested14"
    by (simp add: nested14_def stats13_simps resolve_13_14)
  have lv: "levels (contextData stats13) nested14
       = [[(''key'', JStr ''/mgmt/tm/a''), (''disabled'', JBool False)], [(''disabled'', JBool True)]]"
    by (simp add: nested14_def stats13_simps resolve_13_14)
  have g: "gathered [[(''key'', JStr ''/mgmt/tm/a''), (''disabled'', JBool False)], [(''disabled'', JBool True)]]
             = [(''key'', JStr ''/mgmt/tm/a''), (''disabled'', JBool True)]"
    by (simp add: gathered_def obj_assign_def object_keys_entries obj_get_def)
  have d: "deepest_entry
             [[(''key'', JStr ''/mgmt/tm/a''), (''disabled'', JBool False)], [(''disabled'', JBool True)]]
             ''disabled'' = Some (JBool True)"
    by (simp add: deepest_entry_def obj_get_def)
  have rend: "\<not> isl (renderProperty render_plain (contextData stats13)
                       [(''key'', JStr ''/mgmt/tm/a''), (''disabled'', JBool True)])"
    by (simp add: renderProperty_def obj_get_def truthy_opt_def render_plain_def)
  have ne: "''disabled'' \<noteq> ''__proto__''" by simp
  show ?thesis
    using sel rend ne
      undefined_branch_disabled_only_by_flag [OF sel, of render_plain "''::''" "''a''"]
    unfolding lv g
    by (auto simp: truthy_opt_def d obj_get_def)
qed

text \<open>
  Claim C9 as stated fails: with the device at version 13.1, the property without
  \<^verbatim>\<open>else\<close> and without a \<^verbatim>\<open>disabled\<close> flag resolves to an empty descriptor, and
  \<^verbatim>\<open>_loadData\<close> throws on its missing key: the property fails.
\<close>

theorem undefined_branch_fails_counterexample:
  "selects_undefined (contextData stats13) since14
   \<and> processProperty render_plain ''::'' ''a'' since14 stats13 = (Rejected TypeError, stats13)"
  by (simp add: since14_def stats13_simps resolve_13_14 processProperty_def preprocessProperty_def
      obj_assign_def object_keys_def renderProperty_def obj_get_def truthy_opt_def loadData_def)

section \<open>The context phase\<close>

lemma loadData_contextData: "contextData (snd (loadData sep key property s)) = contextData s"
  by (auto simp: loadData_def Let_def split: option.splits json.splits)

lemma processProperty_contextData:
  "contextData (snd (processProperty render sep key property s)) = contextData s"
  by (auto simp: processProperty_def loadData_contextData split: sum.splits)

lemma start_properties_contextData:
  "contextData (snd (start_properties render sep props keys s)) = contextData s"
proof (induction keys arbitrary: s)
  case Nil
  show ?case by simp
next
  case (Cons key keys)
  show ?case
  proof (cases "obj_get props key")
    case None
    then show ?thesis using Cons.IH by simp
  next
    case (Some property)
    then show ?thesis
      using Cons.IH [of "snd (processProperty render sep key property s)"]
        processProperty_contextData [of render sep key property s]
      by (simp add: split_beta)
  qed
qed

lemma processContext_contextData:
  "contextData (snd (processContext render sep grp s)) = contextData s"
  by (simp add: processContext_def start_properties_contextData)

lemma start_groups_contextData:
  "contextData (snd (start_groups render sep groups s)) = contextData s"
proof (induction groups arbitrary: s)
  case Nil
  show ?case by simp
next
  case (Cons grp groups)
  show ?case
    using Cons.IH [of "snd (processContext render sep grp s)"]
      processContext_contextData [of render sep grp s]
    by (simp add: split_beta)
qed

lemma computeContextData_contextData:
  "contextData (snd (snd (computeContextData render sep contextDef s))) = contextData s"
  by (auto simp: computeContextData_def split_beta processContext_contextData
      start_groups_contextData split: context_def.splits list.splits)

lemma obj_assign_Nil: "obj_assign target [] = target"
  by (simp add: obj_assign_def object_keys_def)

lemma obj_assign_single: "obj_assign target [(k, v)] = obj_set target k v"
  by (simp add: obj_assign_def object_keys_def obj_get_def)

lemma stats0_simps:
  "loader stats0 = loaderX" "contextData stats0 = []" "collectedData stats0 = []" "waiting stats0 = []"
  by (simp_all add: stats0_def)

lemma object_keys_groups:
  "object_keys versionGroup = [''deviceVersion'']" "object_keys dependentGroup = [''provisioning'']"
  by (simp_all add: object_keys_def versionGroup_def dependentGroup_def is_array_index_def is_digit_def)

lemma object_keys_key: "object_keys [(''key'', v)] = [''key'']"
  by (simp add: object_keys_def is_array_index_def is_digit_def)

lemma split_keys:
  "js_split ''::'' ''X::version'' = [''X'', ''version'']"
  "js_split ''::'' ''X::provision'' = [''X'', ''provision'']"
  by (simp_all add: js_split_def split_from.simps)

lemma start_versionGroup:
  "processContext render_plain ''::'' versionGroup stats0
     = ([Waiting 0],
        stats0\<lparr>loader := loadEndpoint ''X'' 0 loaderX,
               waiting := [(''deviceVersion'', [(''key'', JStr ''X::version'')])]\<rparr>)"
  by (simp add: processContext_def object_keys_groups)
     (simp add: versionGroup_def obj_get_def processProperty_def preprocessProperty_def
        renderProperty_def render_plain_def truthy_opt_def loadData_def splitKey_def split_keys
        stats0_simps Let_def)

text \<open>
  Claim C4 on the code. For a context of two groups, the second depending on the device
  version that the first loads: when \<^verbatim>\<open>_computeContextData\<close> returns, both groups have
  been started, the property of the second group has been evaluated without the device
  version and is rejected, nothing has been merged into the context data, and the
  promise returned is that of the first group alone. Started after the first group's
  value is stored and merged, the second group would wait for its load instead.
\<close>

theorem computeContextData_starts_dependent_group_early:
  "fst (computeContextData render_plain ''::'' (ContextArray [versionGroup, dependentGroup]) stats0) = Some 0
   \<and> fst (snd (computeContextData render_plain ''::'' (ContextArray [versionGroup, dependentGroup]) stats0))
       = [[Waiting 0], [Rejected NoDeviceVersion]]
   \<and> contextData (snd (snd (computeContextData render_plain ''::''
         (ContextArray [versionGroup, dependentGroup]) stats0))) = []
   \<and> fst (processContext render_plain ''::'' dependentGroup
         (processContext_merge (store_collected ''deviceVersion'' (JStr ''14.1'')
            (snd (processContext render_plain ''::'' versionGroup stats0)))))
       = [Waiting 1]"
proof -
  have dep0: "fst (processContext render_plain ''::'' dependentGroup s) = [Rejected NoDeviceVersion]"
    if "contextData s = []" for s
    using that
    by (simp add: processContext_def object_keys_groups)
       (simp add: dependentGroup_def obj_get_def processProperty_def preprocessProperty_def
          resolveConditional_def object_keys_dvge deviceVersionGreaterOrEqual_def)
  have ctx: "contextData (snd (processContext render_plain ''::'' versionGroup stats0)) = []"
    by (simp add: start_versionGroup stats0_simps)
  have merged: "processContext_merge (store_collected ''deviceVersion'' (JStr ''14.1'')
            (snd (processContext render_plain ''::'' versionGroup stats0)))
       = stats0\<lparr>loader := loadEndpoint ''X'' 0 loaderX,
               waiting := [(''deviceVersion'', [(''key'', JStr ''X::version'')])],
               contextData := [(''deviceVersion'', JStr ''14.1'')]\<rparr>"
    unfolding start_versionGroup
    by (simp add: processContext_merge_def store_collected_def stats0_simps obj_assign_single
        stats0_def)
  have seq: "fst (processContext render_plain ''::'' dependentGroup
         (processContext_merge (store_collected ''deviceVersion'' (JStr ''14.1'')
            (snd (processContext render_plain ''::'' versionGroup stats0)))))
       = [Waiting 1]"
    unfolding merged
    by (simp add: processContext_def object_keys_groups)
       (simp add: dependentGroup_def obj_get_def processProperty_def preprocessProperty_def
          resolveConditional_def object_keys_dvge deviceVersionGreaterOrEqual_def
          obj_assign_Nil obj_assign_single compare_13_14
          renderProperty_def render_plain_def truthy_opt_def loadData_def splitKey_def split_keys
          Let_def)
  show ?thesis
    using dep0 [OF ctx] seq
    by (simp add: computeContextData_def split_beta computeContextData_contextData
        processContext_contextData stats0_simps start_versionGroup)
qed

section \<open>Reference expansion\<close>




















section \<open>Single flight\<close>

text \<open>Effects of a step on the parts of the state that belong to one endpoint.\<close>

lemma invoked_of_append:
  "invoked_of X (s\<lparr>invoked := invoked s @ map (\<lambda>cb. (Y, cb, d, err)) cbs\<rparr>)
     = invoked_of X s @ (if Y = X then map (\<lambda>cb. (cb, d, err)) cbs else [])"
  by (simp add: invoked_of_def comp_def)

lemma tick_cases:
  assumes "i < length (chains s)" and "chains s ! i = (Y, p)"
  shows "tick i s =
    (case p of
       P_then1 dataIsEmpty \<Rightarrow>
         if dataIsEmpty then
           (case endpoints s of
              None \<Rightarrow> s\<lparr>chains := (chains s)[i := (Y, P_catch1 TypeError)]\<rparr>
            | Some eps \<Rightarrow>
                (case eps Y of
                   None \<Rightarrow> s\<lparr>chains := (chains s)[i := (Y, P_catch1 TypeError)]\<rparr>
                 | Some ep \<Rightarrow> s\<lparr>fetches := fetches s @ [Y], chains := (chains s)[i := (Y, P_fetch)]\<rparr>))
         else s\<lparr>chains := (chains s)[i := (Y, P_then2)]\<rparr>
     | P_fetch \<Rightarrow> s
     | P_catch1 err \<Rightarrow>
         (case cachedResponse s Y of
            None \<Rightarrow> s\<lparr>chains := (chains s)[i := (Y, P_catch2 TypeError)]\<rparr>
          | Some entry \<Rightarrow>
              s\<lparr>cachedResponse := (cachedResponse s)(Y \<mapsto> entry\<lparr>callbacks := []\<rparr>),
                invoked := invoked s @ map (\<lambda>cb. (Y, cb, None, Some err)) (rev (callbacks entry)),
                chains := (chains s)[i := (Y, P_then2)]\<rparr>)
     | P_then2 \<Rightarrow>
         (case cachedResponse s Y of
            None \<Rightarrow> s\<lparr>chains := (chains s)[i := (Y, P_catch2 TypeError)]\<rparr>
          | Some entry \<Rightarrow>
              if loaded entry then
                s\<lparr>cachedResponse := (cachedResponse s)(Y \<mapsto> entry\<lparr>callbacks := []\<rparr>),
                  invoked := invoked s @ map (\<lambda>cb. (Y, cb, data entry, None)) (rev (callbacks entry)),
                  chains := (chains s)[i := (Y, P_done)]\<rparr>
              else s\<lparr>chains := (chains s)[i := (Y, P_done)]\<rparr>)
     | P_catch2 err \<Rightarrow> s\<lparr>logged := logged s @ [err], chains := (chains s)[i := (Y, P_done)]\<rparr>
     | P_done \<Rightarrow> s)"
  using assms
  by (auto simp: tick_def set_position_def Let_def executeCallbacks_Some executeCallbacks_None
      split: position.splits option.splits)

lemma tick_out_of_range: "\<not> i < length (chains s) \<Longrightarrow> tick i s = s"
  by (simp add: tick_def)

lemma fetchDone_cases:
  assumes "i < length (chains s)" and "chains s ! i = (Y, P_fetch)"
  shows "fetchDone i outcome s =
    (case outcome of
       Inl err \<Rightarrow> s\<lparr>chains := (chains s)[i := (Y, P_catch1 err)]\<rparr>
     | Inr resp \<Rightarrow>
         (case cachedResponse s Y of
            None \<Rightarrow> s\<lparr>chains := (chains s)[i := (Y, P_catch1 TypeError)]\<rparr>
          | Some entry \<Rightarrow>
              s\<lparr>cachedResponse := (cachedResponse s)(Y \<mapsto> entry\<lparr>data := Some resp, loaded := True\<rparr>),
                chains := (chains s)[i := (Y, P_then2)]\<rparr>))"
  using assms
  by (auto simp: fetchDone_def set_position_def Let_def split: sum.splits option.splits)

lemma fetchDone_idle:
  "\<not> (i < length (chains s) \<and> snd (chains s ! i) = P_fetch) \<Longrightarrow> fetchDone i outcome s = s"
  by (auto simp: fetchDone_def)



lemma pos_of_append: "pos_of X (xs @ ys) = pos_of X xs + pos_of X ys"
  by (simp add: pos_of_def)

lemma pos_of_Cons: "pos_of X ((Y, p) # xs) = (if Y = X then add_mset p (pos_of X xs) else pos_of X xs)"
  by (simp add: pos_of_def)

lemma pos_of_Nil: "pos_of X [] = {#}"
  by (simp add: pos_of_def)

lemma pos_of_split:
  assumes "i < length chs" and "chs ! i = (X, p)"
  shows "\<exists>M0. pos_of X chs = add_mset p M0 \<and> (\<forall>p'. pos_of X (chs[i := (X, p')]) = add_mset p' M0)"
proof -
  have a: "chs = take i chs @ (X, p) # drop (Suc i) chs"
    unfolding assms(2) [symmetric] by (rule id_take_nth_drop [OF assms(1)])
  have b: "chs[i := (X, p')] = take i chs @ (X, p') # drop (Suc i) chs" for p'
    using assms by (simp add: upd_conv_take_nth_drop)
  have "pos_of X chs = add_mset p (pos_of X (take i chs) + pos_of X (drop (Suc i) chs))"
    by (subst a) (simp add: pos_of_append pos_of_Cons)
  moreover have "pos_of X (chs[i := (X, p')])
      = add_mset p' (pos_of X (take i chs) + pos_of X (drop (Suc i) chs))" for p'
    by (subst b) (simp add: pos_of_append pos_of_Cons)
  ultimately show ?thesis by blast
qed

lemma pos_of_other:
  assumes "i < length chs" and "chs ! i = (Y, p)" and "Y \<noteq> X"
  shows "pos_of X (chs[i := (Y, p')]) = pos_of X chs"
proof -
  have a: "chs = take i chs @ (Y, p) # drop (Suc i) chs"
    unfolding assms(2) [symmetric] by (rule id_take_nth_drop [OF assms(1)])
  have b: "chs[i := (Y, p')] = take i chs @ (Y, p') # drop (Suc i) chs"
    using assms by (simp add: upd_conv_take_nth_drop)
  have "pos_of X (chs[i := (Y, p')]) = pos_of X (take i chs) + pos_of X (drop (Suc i) chs)"
    by (subst b) (simp add: pos_of_append pos_of_Cons assms(3))
  moreover have "pos_of X chs = pos_of X (take i chs) + pos_of X (drop (Suc i) chs)"
    by (subst a) (simp add: pos_of_append pos_of_Cons assms(3))
  ultimately show ?thesis by simp
qed

lemma positions_pos_of: "positions X s = pos_of X (chains s)"
  by (simp add: positions_def pos_of_def)

lemma same_view_refl: "same_view X s s"
  by (simp add: same_view_def)

lemma same_viewD:
  assumes "same_view X s s'"
  shows "endpoints s' = endpoints s" "cachedResponse s' X = cachedResponse s X"
    "positions X s' = positions X s" "invoked_of X s' = invoked_of X s"
    "count_list (fetches s') X = count_list (fetches s) X"
  using assms by (simp_all add: same_view_def)



lemma invoked_of_other:
  "Y \<noteq> X \<Longrightarrow> invoked_of X (s\<lparr>invoked := invoked s @ map (\<lambda>cb. (Y, cb, d, err)) cbs\<rparr>) = invoked_of X s"
  by (simp add: invoked_of_def)

lemma same_view_tick_other:
  assumes "i < length (chains s)" and "chains s ! i = (Y, p)" and "Y \<noteq> X"
  shows "same_view X s (tick i s)"
  unfolding tick_cases [OF assms(1,2)]
  using assms pos_of_other [OF assms]
  by (cases p)
     (auto simp: same_view_def positions_pos_of invoked_of_def
        split: option.splits)

lemma same_view_fetchDone_other:
  assumes "i < length (chains s)" and "chains s ! i = (Y, p)" and "Y \<noteq> X"
  shows "same_view X s (fetchDone i outcome s)"
proof (cases "p = P_fetch")
  case True
  show ?thesis
    unfolding fetchDone_cases [OF assms(1) assms(2) [unfolded True]]
    using assms pos_of_other [OF assms]
    by (auto simp: same_view_def positions_pos_of invoked_of_def split: option.splits sum.splits)
next
  case False
  then show ?thesis using assms(2) by (simp add: fetchDone_idle same_view_refl)
qed

lemma same_view_loadEndpoint_other:
  assumes "Y \<noteq> X"
  shows "same_view X s (loadEndpoint Y cb s)"
  using assms
  by (auto simp: loadEndpoint_def same_view_def positions_pos_of pos_of_append pos_of_Cons
      pos_of_Nil invoked_of_def split: option.splits)



















lemma run_Nil: "run [] s = s"
  by (simp add: run_def)

lemma run_Cons: "run (e # es) s = run es (step e s)"
  by (simp add: run_def)

lemma run_append: "run (es @ es') s = run es' (run es s)"
  by (simp add: run_def)


lemma fresh_loader:
  "endpoints (setEndpoints newEndpoints EndpointLoader) = Some (catalog newEndpoints)"
  "cachedResponse (setEndpoints newEndpoints EndpointLoader) = Map.empty"
  "chains (setEndpoints newEndpoints EndpointLoader) = []"
  "fetches (setEndpoints newEndpoints EndpointLoader) = []"
  "invoked (setEndpoints newEndpoints EndpointLoader) = []"
  "logged (setEndpoints newEndpoints EndpointLoader) = []"
  by (simp_all add: setEndpoints_def EndpointLoader_def)






lemma catalog_X: "catalog [endpointX] = [''X'' \<mapsto> endpointX]"
  by (simp add: catalog_def endpointX_def)

lemmas loader_eval = run_def loadEndpoint_def tick_def fetchDone_def set_position_def
  executeCallbacks_def drain.simps Let_def fresh_loader catalog_X


section \<open>Calls for an endpoint outside the catalog\<close>









section \<open>Calls after a failed fetch\<close>

lemma failed_quiet_same_view:
  assumes "same_view X s s'" and "failed_quiet eps X inv0 n0 s"
  shows "failed_quiet eps X inv0 n0 s'"
  using assms(2) unfolding failed_quiet_def same_viewD [OF assms(1)] .

lemma failed_quiet_Call_same:
  assumes F: "failed_quiet eps X inv0 n0 s" and cat: "eps X = Some ep"
  shows "failed_quiet eps X inv0 n0 (loadEndpoint X cb s)"
proof -
  obtain entry where entry: "cachedResponse s X = Some entry" "\<not> loaded entry"
    and e: "endpoints s = Some eps"
    using F by (auto simp: failed_quiet_def)
  have t: "loadEndpoint X cb s =
        s\<lparr>cachedResponse := (cachedResponse s)(X \<mapsto> entry\<lparr>callbacks := callbacks entry @ [cb]\<rparr>),
          chains := chains s @ [(X, P_then1 False)]\<rparr>"
    using e cat entry by (simp add: loadEndpoint_def)
  have pos: "positions X (loadEndpoint X cb s) = add_mset (P_then1 False) (positions X s)"
    by (simp add: t positions_pos_of pos_of_append pos_of_Cons pos_of_Nil)
  show ?thesis
    unfolding failed_quiet_def pos
    using F entry by (simp add: t invoked_of_def failed_quiet_def)
qed

lemma failed_quiet_tick_same:
  assumes F: "failed_quiet eps X inv0 n0 s"
    and i: "i < length (chains s)" and c: "chains s ! i = (X, p)"
  shows "failed_quiet eps X inv0 n0 (tick i s)"
proof -
  obtain M0 where M0: "positions X s = add_mset p M0"
      and upd: "\<And>p'. pos_of X ((chains s)[i := (X, p')]) = add_mset p' M0"
    using pos_of_split [OF i c] by (auto simp: positions_pos_of)
  obtain entry where entry: "cachedResponse s X = Some entry" "\<not> loaded entry"
    using F by (auto simp: failed_quiet_def)
  have p: "\<not> in_flight p" and rest: "\<forall>q \<in># M0. \<not> in_flight q"
    using F by (simp_all add: failed_quiet_def M0)
  have move: "failed_quiet eps X inv0 n0 (s\<lparr>chains := (chains s)[i := (X, p')]\<rparr>)"
    if "\<not> in_flight p'" for p'
    using F that rest unfolding failed_quiet_def
    by (simp add: positions_pos_of upd invoked_of_def)
  show ?thesis
  proof (cases p)
    case (P_then1 b)
    then have "\<not> b" using p by simp
    then have "tick i s = s\<lparr>chains := (chains s)[i := (X, P_then2)]\<rparr>"
      using tick_cases [OF i c] P_then1 by simp
    then show ?thesis using move [of P_then2] by simp
  next
    case P_fetch
    then show ?thesis using p by simp
  next
    case (P_catch1 err)
    then show ?thesis using p by simp
  next
    case P_then2
    then have "tick i s = s\<lparr>chains := (chains s)[i := (X, P_done)]\<rparr>"
      using tick_cases [OF i c] entry by simp
    then show ?thesis using move [of P_done] by simp
  next
    case (P_catch2 err)
    then have t: "tick i s = s\<lparr>logged := logged s @ [err], chains := (chains s)[i := (X, P_done)]\<rparr>"
      using tick_cases [OF i c] by simp
    show ?thesis
      using F rest unfolding failed_quiet_def t
      by (simp add: positions_pos_of upd invoked_of_def)
  next
    case P_done
    then have "tick i s = s" using tick_cases [OF i c] by simp
    then show ?thesis using F by simp
  qed
qed

lemma failed_quiet_step:
  assumes F: "failed_quiet eps X inv0 n0 s" and cat: "eps X = Some ep"
  shows "failed_quiet eps X inv0 n0 (step e s)"
proof (cases e)
  case (Call Y cb)
  show ?thesis
  proof (cases "Y = X")
    case True
    then show ?thesis using failed_quiet_Call_same [OF F cat] Call by simp
  next
    case False
    then show ?thesis
      using failed_quiet_same_view [OF same_view_loadEndpoint_other [OF False] F] Call by simp
  qed
next
  case (Tick i)
  show ?thesis
  proof (cases "i < length (chains s)")
    case False
    then show ?thesis using Tick F by (simp add: tick_out_of_range)
  next
    case True
    obtain Y p where c: "chains s ! i = (Y, p)" by (cases "chains s ! i")
    show ?thesis
    proof (cases "Y = X")
      case same: True
      then show ?thesis using failed_quiet_tick_same [OF F True] c Tick by simp
    next
      case False
      then show ?thesis
        using failed_quiet_same_view [OF same_view_tick_other [OF True c False] F] Tick by simp
    qed
  qed
next
  case (FetchDone i outcome)
  show ?thesis
  proof (cases "i < length (chains s) \<and> snd (chains s ! i) = P_fetch")
    case False
    then show ?thesis using FetchDone F by (simp add: fetchDone_idle)
  next
    case True
    then obtain Y where c: "chains s ! i = (Y, P_fetch)" and i: "i < length (chains s)"
      by (cases "chains s ! i") auto
    show ?thesis
    proof (cases "Y = X")
      case same: True
      have "(X, P_fetch) \<in> set (chains s)" using i c same by (metis nth_mem)
      then have "P_fetch \<in># positions X s" by (force simp: positions_def)
      then show ?thesis using F by (auto simp: failed_quiet_def)
    next
      case False
      then show ?thesis
        using failed_quiet_same_view [OF same_view_fetchDone_other [OF i c False] F] FetchDone by simp
    qed
  qed
qed

lemma failed_quiet_run:
  assumes "failed_quiet eps X inv0 n0 s" and "eps X = Some ep"
  shows "failed_quiet eps X inv0 n0 (run es s)"
  using assms(1)
proof (induction es arbitrary: s)
  case Nil
  then show ?case by (simp add: run_Nil)
next
  case (Cons e es)
  show ?case
    unfolding run_Cons
    by (rule Cons.IH [OF failed_quiet_step [OF Cons.prems assms(2)]])
qed

text \<open>
  Claim C3 on the code. Callback 1 asks for \<^verbatim>\<open>X\<close>, the fetch fails and callback 1 is told;
  then callback 2 asks for \<^verbatim>\<open>X\<close> and its chain runs to its end. No new fetch is issued,
  but callback 2 is never invoked, whatever events \<open>es\<close> follow: it stays in the queue of
  an entry that nothing will notify again. After a fetch that succeeded, the same late
  caller is answered with the cached response.
\<close>

theorem loadEndpoint_after_failure_never_answers:
  "invoked_of ''X'' (run ([Call ''X'' 1, Tick 0, FetchDone 0 (Inl (NetworkError ''500'')), Tick 0, Tick 0,
                           Call ''X'' 2, Tick 1, Tick 1] @ es)
                       (setEndpoints [endpointX] EndpointLoader))
     = [(1, None, Some (NetworkError ''500''))]
   \<and> count_list (fetches (run ([Call ''X'' 1, Tick 0, FetchDone 0 (Inl (NetworkError ''500'')), Tick 0, Tick 0,
                           Call ''X'' 2, Tick 1, Tick 1] @ es)
                       (setEndpoints [endpointX] EndpointLoader))) ''X'' = 1
   \<and> cachedResponse (run [Call ''X'' 1, Tick 0, FetchDone 0 (Inl (NetworkError ''500'')), Tick 0, Tick 0,
                           Call ''X'' 2, Tick 1, Tick 1]
                       (setEndpoints [endpointX] EndpointLoader)) ''X''
       = Some \<lparr>loaded = False, callbacks = [2], data = None\<rparr>
   \<and> map snd (chains (run [Call ''X'' 1, Tick 0, FetchDone 0 (Inl (NetworkError ''500'')), Tick 0, Tick 0,
                           Call ''X'' 2, Tick 1, Tick 1]
                       (setEndpoints [endpointX] EndpointLoader))) = [P_done, P_done]
   \<and> invoked_of ''X'' (run [Call ''X'' 1, Tick 0, FetchDone 0 (Inr responseX), Tick 0,
                           Call ''X'' 2, Tick 1, Tick 1]
                       (setEndpoints [endpointX] EndpointLoader))
       = [(1, Some responseX, None), (2, Some responseX, None)]"
proof -
  let ?s0 = "setEndpoints [endpointX] EndpointLoader"
  let ?pre = "[Call ''X'' 1, Tick 0, FetchDone 0 (Inl (NetworkError ''500'')), Tick 0, Tick 0,
               Call ''X'' 2, Tick 1, Tick 1]"
  have F: "failed_quiet (catalog [endpointX]) ''X'' [(1, None, Some (NetworkError ''500''))] 1 (run ?pre ?s0)"
    unfolding failed_quiet_def
    by (simp add: loader_eval positions_def invoked_of_def)
  have cat: "catalog [endpointX] ''X'' = Some endpointX" by (simp add: catalog_X)
  have "failed_quiet (catalog [endpointX]) ''X'' [(1, None, Some (NetworkError ''500''))] 1
          (run (?pre @ es) ?s0)"
    unfolding run_append by (rule failed_quiet_run [OF F cat])
  then have a: "invoked_of ''X'' (run (?pre @ es) ?s0) = [(1, None, Some (NetworkError ''500''))]"
      "count_list (fetches (run (?pre @ es) ?s0)) ''X'' = 1"
    by (simp_all add: failed_quiet_def)
  have b: "cachedResponse (run ?pre ?s0) ''X'' = Some \<lparr>loaded = False, callbacks = [2], data = None\<rparr>"
      "map snd (chains (run ?pre ?s0)) = [P_done, P_done]"
      "invoked_of ''X'' (run [Call ''X'' 1, Tick 0, FetchDone 0 (Inr responseX), Tick 0,
                           Call ''X'' 2, Tick 1, Tick 1] ?s0)
       = [(1, Some responseX, None), (2, Some responseX, None)]"
    by (simp_all add: loader_eval invoked_of_def)
  show ?thesis using a b by blast
qed

end
